theory Spec2Isabelle
  imports Complex_Main "HOL-Library.Char_ord" "HOL-Library.List_Lexorder"
    "HOL-Library.Product_Lexorder"
begin

section \<open>Python values\<close>

text \<open>
  Strings are Isabelle strings whose characters are read as the code points
  U+0000 to U+00FF. On that range \<open>str.lower\<close> acts character by character:
  it adds 32 to A-Z, to U+00C0-U+00D6 and to U+00D8-U+00DE and leaves every
  other character alone. Strings are ordered as Python orders them, by code
  point and lexicographically.
\<close>

definition latin1_lower :: "nat \<Rightarrow> nat" where
  "latin1_lower n =
     (if (65 \<le> n \<and> n \<le> 90) \<or> (192 \<le> n \<and> n \<le> 222 \<and> n \<noteq> 215) then n + 32 else n)"

definition lower_char :: "char \<Rightarrow> char" where
  "lower_char c = char_of (latin1_lower (of_char c))"

definition lower :: "string \<Rightarrow> string" where
  "lower s = map lower_char s"

text \<open>
  The values a torrent dictionary holds, as the search API delivers them:
  strings (quality, type, hash, size), integers (seeds, peers) and null.
  A \<open>Dict\<close> is a map from keys to such values.
\<close>

datatype pyval = PNone | PStr string | PInt int

type_synonym dict = "string \<rightharpoonup> pyval"

datatype error = AttributeError | IndexError | ValueError | KeyboardInterrupt

fun truthy :: "pyval \<Rightarrow> bool" where
  "truthy PNone = False"
| "truthy (PStr s) = (s \<noteq> [])"
| "truthy (PInt n) = (n \<noteq> 0)"

text \<open>\<open>t.get(k) or ""\<close>\<close>

definition get_or_empty :: "dict \<Rightarrow> string \<Rightarrow> pyval" where
  "get_or_empty t k =
     (case t k of None \<Rightarrow> PStr [] | Some v \<Rightarrow> if truthy v then v else PStr [])"

text \<open>\<open>v.lower()\<close>: only a string has the method.\<close>

fun py_lower :: "pyval \<Rightarrow> error + string" where
  "py_lower (PStr s) = Inr (lower s)"
| "py_lower PNone = Inl AttributeError"
| "py_lower (PInt n) = Inl AttributeError"

record YTSMovie =
  movie_id :: int
  movie_title :: string
  movie_year :: int
  movie_url :: string
  torrents :: "dict list"
  rating :: rat
  imdb_code :: string

section \<open>Quality-upgrade resolver\<close>

definition RATING_UHD_THRESHOLD :: rat where
  "RATING_UHD_THRESHOLD = 7"

definition PREF_QUALITIES_HIGH :: "string list" where
  "PREF_QUALITIES_HIGH = [''2160p'', ''1080p'', ''720p'']"

definition PREF_QUALITIES_DEFAULT :: "string list" where
  "PREF_QUALITIES_DEFAULT = [''1080p'', ''720p'']"

text \<open>
  \<open>QUALITY_RANK.get(q, 0)\<close>. Ranks, ratings and seconds are rational
  numbers: every rank and every threshold of the code is a finite float that
  is compared, never rounded.
\<close>

definition quality_rank :: "string \<Rightarrow> rat" where
  "quality_rank q =
     (if q = ''720p'' then 1
      else if q = ''1080p'' then 2
      else if q = ''1440p'' then 5 / 2
      else if q = ''2160p'' then 3
      else if q = ''4k'' then 3
      else if q = ''uhd'' then 3
      else 0)"

text \<open>
  \<open>by_quality\<close> is a dictionary from the lower-cased quality label to the
  list of torrents carrying it; a Python dictionary iterates in insertion
  order, so it is an association list with distinct keys.
\<close>

type_synonym by_quality = "(string \<times> dict list) list"

text \<open>\<open>by_quality.setdefault(q, []).append(t)\<close>\<close>

fun setdefault_append :: "by_quality \<Rightarrow> string \<Rightarrow> dict \<Rightarrow> by_quality" where
  "setdefault_append [] q t = [(q, [t])]"
| "setdefault_append ((k, arr) # rest) q t =
     (if k = q then (k, arr @ [t]) # rest else (k, arr) # setdefault_append rest q t)"

text \<open>The first loop of \<open>_choose_next_quality\<close>, over \<open>match.torrents\<close>.\<close>

fun group_torrents :: "dict list \<Rightarrow> by_quality \<Rightarrow> error + by_quality" where
  "group_torrents [] bq = Inr bq"
| "group_torrents (t # ts) bq =
     (case py_lower (get_or_empty t ''quality'') of
        Inl e \<Rightarrow> Inl e
      | Inr q \<Rightarrow> if q = [] then group_torrents ts bq
                 else group_torrents ts (setdefault_append bq q t))"

text \<open>The sort key \<open>0 if (t.get("type") or "").lower() == "bluray" else 1\<close>.\<close>

definition bluray_key :: "dict \<Rightarrow> error + nat" where
  "bluray_key t =
     (case py_lower (get_or_empty t ''type'') of
        Inl e \<Rightarrow> Inl e
      | Inr s \<Rightarrow> Inr (if s = ''bluray'' then 0 else 1))"

text \<open>
  \<open>arr.sort(key=...)\<close> computes the key of every element first (an exception
  there leaves the function) and then sorts stably by the keys.
\<close>

fun sort_keys :: "dict list \<Rightarrow> error + nat list" where
  "sort_keys [] = Inr []"
| "sort_keys (t # ts) =
     (case bluray_key t of
        Inl e \<Rightarrow> Inl e
      | Inr k \<Rightarrow> (case sort_keys ts of Inl e \<Rightarrow> Inl e | Inr ks \<Rightarrow> Inr (k # ks)))"

definition sort_bluray_first :: "dict list \<Rightarrow> error + dict list" where
  "sort_bluray_first arr =
     (case sort_keys arr of
        Inl e \<Rightarrow> Inl e
      | Inr ks \<Rightarrow> Inr (map snd (sort_key fst (zip ks arr))))"

text \<open>The second loop, \<open>for q, arr in by_quality.items(): arr.sort(...)\<close>.\<close>

fun sort_groups :: "by_quality \<Rightarrow> error + by_quality" where
  "sort_groups [] = Inr []"
| "sort_groups ((q, arr) # rest) =
     (case sort_bluray_first arr of
        Inl e \<Rightarrow> Inl e
      | Inr arr' \<Rightarrow>
          (case sort_groups rest of Inl e \<Rightarrow> Inl e | Inr rest' \<Rightarrow> Inr ((q, arr') # rest')))"

text \<open>\<open>arr[0]\<close>\<close>

definition first_of :: "'a list \<Rightarrow> error + 'a" where
  "first_of arr = (case arr of [] \<Rightarrow> Inl IndexError | x # _ \<Rightarrow> Inr x)"

text \<open>
  The loop over the preference ladder. It returns the first ladder entry
  whose rank exceeds \<open>cur_rank\<close> and that is a key of \<open>by_quality\<close>, or
  \<open>None\<close> when the loop runs to its end.
\<close>

fun pick_preferred :: "string list \<Rightarrow> by_quality \<Rightarrow> rat \<Rightarrow> error + (string \<times> dict) option" where
  "pick_preferred [] bq cur_rank = Inr None"
| "pick_preferred (want # rest) bq cur_rank =
     (let qk = lower want; rank = quality_rank qk in
      if rank > cur_rank \<and> map_of bq qk \<noteq> None then
        (case first_of (the (map_of bq qk)) of
           Inl e \<Rightarrow> Inl e
         | Inr t \<Rightarrow> Inr (Some (want, t)))
      else pick_preferred rest bq cur_rank)"

text \<open>The fallback loop collecting \<open>(rank, qk, arr[0])\<close>.\<close>

fun fallback_candidates :: "by_quality \<Rightarrow> rat \<Rightarrow> error + (rat \<times> string \<times> dict) list" where
  "fallback_candidates [] cur_rank = Inr []"
| "fallback_candidates ((qk, arr) # rest) cur_rank =
     (let rank = quality_rank qk in
      if rank > cur_rank then
        (case first_of arr of
           Inl e \<Rightarrow> Inl e
         | Inr t \<Rightarrow>
             (case fallback_candidates rest cur_rank of
                Inl e \<Rightarrow> Inl e
              | Inr cs \<Rightarrow> Inr ((rank, qk, t) # cs)))
      else fallback_candidates rest cur_rank)"

text \<open>
  \<open>candidates.sort(reverse=True)\<close> compares the tuples. The labels are the
  distinct keys of a dictionary, so two tuples always differ in rank or in
  label and the comparison never reaches the torrent: the list is sorted in
  descending order of \<open>(rank, label)\<close>.
\<close>

definition sort_reverse :: "(rat \<times> string \<times> dict) list \<Rightarrow> (rat \<times> string \<times> dict) list" where
  "sort_reverse cs = rev (sort_key (\<lambda>(rank, qk, t). (rank, qk)) cs)"

definition choose_next_quality :: "YTSMovie \<Rightarrow> rat \<Rightarrow> error + (string \<times> dict option)" where
  "choose_next_quality match cur_rank =
     (case group_torrents (torrents match) [] of
        Inl e \<Rightarrow> Inl e
      | Inr grouped \<Rightarrow>
     (case sort_groups grouped of
        Inl e \<Rightarrow> Inl e
      | Inr bq \<Rightarrow>
     (case pick_preferred
             (if rating match \<ge> RATING_UHD_THRESHOLD then PREF_QUALITIES_HIGH
              else PREF_QUALITIES_DEFAULT) bq cur_rank of
        Inl e \<Rightarrow> Inl e
      | Inr (Some (want, t)) \<Rightarrow> Inr (want, Some t)
      | Inr None \<Rightarrow>
     (case fallback_candidates bq cur_rank of
        Inl e \<Rightarrow> Inl e
      | Inr candidates \<Rightarrow>
          (case sort_reverse candidates of
             [] \<Rightarrow> Inr ([], None)
           | (rank, qk, tor) # _ \<Rightarrow> Inr (qk, Some tor))))))"

text \<open>
  A torrent is well typed when its quality and its type are strings, absent
  or null, as the data model of the specification has them. Every other
  value makes \<open>.lower()\<close> raise.
\<close>

definition is_str :: "pyval \<Rightarrow> bool" where
  "is_str v = (case v of PStr s \<Rightarrow> True | _ \<Rightarrow> False)"

definition well_typed :: "dict \<Rightarrow> bool" where
  "well_typed t = (is_str (get_or_empty t ''quality'') \<and> is_str (get_or_empty t ''type''))"

text \<open>
  The invariant of \<open>by_quality\<close>: no key is empty, no group is empty, and
  every torrent of a group comes from the candidate and carries the key as
  its lower-cased quality.
\<close>

definition groups_ok :: "dict list \<Rightarrow> by_quality \<Rightarrow> bool" where
  "groups_ok ts bq = (\<forall>(k, arr) \<in> set bq. k \<noteq> [] \<and> arr \<noteq> [] \<and>
      (\<forall>t \<in> set arr. t \<in> set ts \<and> py_lower (get_or_empty t ''quality'') = Inr k))"

text \<open>Candidates used as concrete inputs.\<close>

definition variant :: "string \<Rightarrow> string \<Rightarrow> dict" where
  "variant q typ = [''quality'' \<mapsto> PStr q, ''type'' \<mapsto> PStr typ]"

definition candidate :: "rat \<Rightarrow> dict list \<Rightarrow> YTSMovie" where
  "candidate r ts =
     \<lparr>movie_id = 1, movie_title = ''Title'', movie_year = 2020, movie_url = ''https://yts.mx/movies/title'',
      torrents = ts, rating = r, imdb_code = ''tt0000001''\<rparr>"

definition scenario_movie :: YTSMovie where
  "scenario_movie =
     candidate 8 [variant ''1080p'' ''web'', variant ''2160p'' ''bluray'', variant ''720p'' ''web'']"

section \<open>Mirror registry\<close>

definition YTS_DEFAULT_BASES :: "string list" where
  "YTS_DEFAULT_BASES =
     [''https://www.yts-official.to/api/v2'',
      ''https://yts.rs/api/v2'',
      ''https://yts.lt/api/v2'',
      ''https://yts.mx/api/v2'',
      ''https://yts.pm/api/v2'',
      ''https://yts.ag/api/v2'',
      ''https://yts.am/api/v2'']"

text \<open>
  \<open>str.isspace\<close> on the code points below 256: tab to carriage return, the
  four separators U+001C to U+001F, the space, U+0085 and U+00A0.
\<close>

definition latin1_space :: "nat \<Rightarrow> bool" where
  "latin1_space n = ((9 \<le> n \<and> n \<le> 13) \<or> (28 \<le> n \<and> n \<le> 32) \<or> n = 133 \<or> n = 160)"

definition is_space :: "char \<Rightarrow> bool" where
  "is_space c = latin1_space (of_char c)"

text \<open>\<open>s.strip()\<close>, \<open>s.rstrip('/')\<close>, \<open>s.endswith(suffix)\<close> and \<open>s.split(',')\<close>\<close>

definition strip :: "string \<Rightarrow> string" where
  "strip s = rev (dropWhile is_space (rev (dropWhile is_space s)))"

definition rstrip_slash :: "string \<Rightarrow> string" where
  "rstrip_slash s = rev (dropWhile (\<lambda>c. c = CHR ''/'') (rev s))"

definition endswith :: "string \<Rightarrow> string \<Rightarrow> bool" where
  "endswith s suffix = (length suffix \<le> length s \<and> drop (length s - length suffix) s = suffix)"

fun split_at :: "char \<Rightarrow> string \<Rightarrow> string \<Rightarrow> string list" where
  "split_at sep word [] = [rev word]"
| "split_at sep word (c # cs) =
     (if c = sep then rev word # split_at sep [] cs else split_at sep (c # word) cs)"

definition split_comma :: "string \<Rightarrow> string list" where
  "split_comma s = split_at CHR '','' [] s"

text \<open>The body of the loop over \<open>env.split(',')\<close>: one configured root.\<close>

definition normalize_root :: "string \<Rightarrow> string" where
  "normalize_root b =
     (if endswith b ''/api/v2'' then rstrip_slash b else rstrip_slash b @ ''/api/v2'')"

fun env_bases :: "string list \<Rightarrow> string list" where
  "env_bases [] = []"
| "env_bases (raw # rest) =
     (let b = strip raw in
      if b = [] then env_bases rest else normalize_root b # env_bases rest)"

text \<open>The loop that removes duplicates, with its set \<open>seen\<close> and its list \<open>uniq\<close>.\<close>

fun dedup_loop :: "string list \<Rightarrow> string set \<Rightarrow> string list \<Rightarrow> string list" where
  "dedup_loop [] seen uniq = uniq"
| "dedup_loop (b # bs) seen uniq =
     (if b \<notin> seen then dedup_loop bs (insert b seen) (uniq @ [b]) else dedup_loop bs seen uniq)"

text \<open>
  \<open>_yts_bases\<close>, as a function of the environment variable \<open>YTS_API_BASE\<close>
  (\<open>None\<close> when it is unset).
\<close>

definition yts_bases :: "string option \<Rightarrow> string list" where
  "yts_bases getenv =
     (let env = strip (case getenv of None \<Rightarrow> [] | Some v \<Rightarrow> v);
          bases = (if env \<noteq> [] then env_bases (split_comma env) else [])
      in dedup_loop (bases @ YTS_DEFAULT_BASES) {} [])"



section \<open>Resilient search client\<close>

text \<open>
  An exception object, as \<open>_is_dns_error\<close> reads it: whether it is an
  instance of \<open>NameResolutionError\<close>, its message \<open>str(e)\<close>, and the exceptions
  it is chained to by \<open>__cause__\<close> and \<open>__context__\<close>.
\<close>

datatype exn = Exn bool string "exn option" "exn option"

text \<open>\<open>needle in text\<close>\<close>

fun contains :: "string \<Rightarrow> string \<Rightarrow> bool" where
  "contains [] needle = (needle = [])"
| "contains (c # cs) needle =
     (take (length needle) (c # cs) = needle \<or> contains cs needle)"

text \<open>
  The loop of \<open>_is_dns_error\<close> follows \<open>__cause__\<close>, or \<open>__context__\<close> when there
  is no cause, until the chain ends.
\<close>

fun is_dns_error :: "exn \<Rightarrow> bool" where
  "is_dns_error (Exn nr msg cause ctx) =
     (if nr then True
      else if contains msg ''nodename nor servname provided'' \<or> contains msg ''Name or service not known''
      then True
      else (case cause of
              Some e \<Rightarrow> is_dns_error e
            | None \<Rightarrow> (case ctx of Some e \<Rightarrow> is_dns_error e | None \<Rightarrow> False)))"

text \<open>
  What one pass through the \<open>try\<close> block of \<open>yts_search\<close> comes to:
  an exception (raised by the request, by \<open>raise_for_status\<close> or while the
  movies are built), a response that \<open>_json_from_response\<close> does not read as
  JSON, or the list of movies together with the elapsed time. The network is
  a function from the URL and the number of the attempt on it to the outcome;
  the query parameters are the same in every request of a call.
\<close>

datatype outcome = Raised exn | NotJson | Movies "YTSMovie list" rat

type_synonym network = "string \<Rightarrow> nat \<Rightarrow> outcome"

datatype event = Get string nat | Sleep rat

text \<open>
  The \<open>while True\<close> loop on one mirror, entered with the values of \<open>attempt\<close>
  and \<open>backoff\<close>. It yields the requests and sleeps in order, and \<open>Some movies\<close>
  when the function returns, \<open>None\<close> when the loop is left by \<open>break\<close>.
\<close>

function attempt_loop ::
  "network \<Rightarrow> int \<Rightarrow> rat \<Rightarrow> string \<Rightarrow> nat \<Rightarrow> rat \<Rightarrow> event list \<times> YTSMovie list option" where
  "attempt_loop net retries slow_after url attempt backoff =
     (case net url (Suc attempt) of
        NotJson \<Rightarrow> ([Get url (Suc attempt)], None)
      | Movies movies elapsed \<Rightarrow>
          if elapsed \<ge> slow_after \<and> int (Suc attempt) \<le> retries then
            (case attempt_loop net retries slow_after url (Suc attempt) (backoff * 2) of
               (evs, r) \<Rightarrow> (Get url (Suc attempt) # Sleep backoff # evs, r))
          else ([Get url (Suc attempt)], Some movies)
      | Raised e \<Rightarrow>
          if is_dns_error e then ([Get url (Suc attempt)], None)
          else if int (Suc attempt) \<le> retries then
            (case attempt_loop net retries slow_after url (Suc attempt) (backoff * 2) of
               (evs, r) \<Rightarrow> (Get url (Suc attempt) # Sleep backoff # evs, r))
          else ([Get url (Suc attempt)], None))"
  by pat_completeness auto
termination
  by (relation "measure (\<lambda>(net, retries, slow_after, url, attempt, backoff). nat (retries - int attempt))")
    auto

declare attempt_loop.simps [simp del]

text \<open>
  The loop \<open>for base in bases\<close>, with \<open>attempt = 0\<close> and \<open>backoff = 0.75\<close> at
  the start of each mirror. It yields the log of each mirror tried and the
  list returned, which is empty when every mirror was left by \<open>break\<close>.
\<close>

fun search_mirrors ::
  "network \<Rightarrow> int \<Rightarrow> rat \<Rightarrow> string list \<Rightarrow> (string \<times> event list) list \<times> YTSMovie list" where
  "search_mirrors net retries slow_after [] = ([], [])"
| "search_mirrors net retries slow_after (base # bases) =
     (case attempt_loop net retries slow_after (base @ ''/list_movies.json'') 0 (3 / 4) of
        (evs, Some movies) \<Rightarrow> ([(base, evs)], movies)
      | (evs, None) \<Rightarrow>
          (case search_mirrors net retries slow_after bases of
             (tried, movies) \<Rightarrow> ((base, evs) # tried, movies)))"

definition yts_search ::
  "network \<Rightarrow> string option \<Rightarrow> int \<Rightarrow> rat \<Rightarrow> (string \<times> event list) list \<times> YTSMovie list" where
  "yts_search net getenv retries slow_after = search_mirrors net retries slow_after (yts_bases getenv)"

text \<open>
  The schedule of a mirror on which \<open>n\<close> retries were made: attempt \<open>k + 1\<close>
  is followed by a sleep of \<open>0.75 * 2 ^ k\<close> seconds, for \<open>k\<close> from 0, and the
  last attempt by none.
\<close>

definition backoff_schedule :: "string \<Rightarrow> nat \<Rightarrow> event list" where
  "backoff_schedule url n =
     concat (map (\<lambda>k. [Get url (Suc k), Sleep (3 / 4 * 2 ^ k)]) [0..<n]) @ [Get url (Suc n)]"

text \<open>Networks used as concrete inputs.\<close>

definition dns_failure :: exn where
  "dns_failure =
     Exn False ''HTTPSConnectionPool: Max retries exceeded'' None
       (Some (Exn False ''[Errno -2] Name or service not known'' None None))"

definition timeout_failure :: exn where
  "timeout_failure = Exn False ''Read timed out'' None None"

definition net_dns_down :: network where
  "net_dns_down url attempt = Raised dns_failure"

definition net_recovering :: network where
  "net_recovering url attempt =
     (if attempt < 2 then Raised timeout_failure
      else if attempt < 3 then Movies [] 9
      else Movies [scenario_movie] 1)"

section \<open>Candidate selector\<close>

text \<open>
  \<open>max(xs, key=f)\<close> on a non-empty list: the first element whose key no
  later element exceeds. Tuples of keys are compared lexicographically.
\<close>

fun max_by :: "('a \<Rightarrow> 'k::linorder) \<Rightarrow> 'a \<Rightarrow> 'a list \<Rightarrow> 'a" where
  "max_by f best [] = best"
| "max_by f best (x # xs) = max_by f (if f x > f best then x else best) xs"

text \<open>
  \<open>_best_match\<close>. The similarity of two titles is the ratio that
  \<open>difflib.SequenceMatcher\<close> computes on the normalised titles; the library is
  not part of the repository and the ratio is a parameter. A year is \<open>None\<close>
  or an integer, and \<open>if year\<close> holds for an integer other than 0.
\<close>

definition year_given :: "int option \<Rightarrow> bool" where
  "year_given year = (case year of None \<Rightarrow> False | Some y \<Rightarrow> y \<noteq> 0)"

definition score :: "(string \<Rightarrow> string \<Rightarrow> rat) \<Rightarrow> string \<Rightarrow> int option \<Rightarrow> YTSMovie \<Rightarrow> rat \<times> rat \<times> rat" where
  "score similarity title year m =
     (let sim = similarity title (movie_title m);
          year_bonus =
            (if year_given year then
               - of_int (if movie_year m \<noteq> 0 then \<bar>movie_year m - the year\<bar> else 9999)
             else 0)
      in (rating m, sim, year_bonus))"

definition best_match ::
  "(string \<Rightarrow> string \<Rightarrow> rat) \<Rightarrow> YTSMovie list \<Rightarrow> string \<Rightarrow> int option \<Rightarrow> YTSMovie option" where
  "best_match similarity movies title year =
     (case movies of
        [] \<Rightarrow> None
      | m # ms \<Rightarrow>
          (case (if year_given year then filter (\<lambda>m. Some (movie_year m) = year) movies else []) of
             s # same_year \<Rightarrow>
               Some (max_by (\<lambda>m. (rating m, similarity title (movie_title m))) s same_year)
           | [] \<Rightarrow> Some (max_by (score similarity title year) m ms)))"

text \<open>
  The loop \<open>for m in movies: if (m.imdb_code or "").lower() == imdb_id.lower()\<close>,
  left at the first candidate that passes the test.
\<close>

fun first_imdb_match :: "YTSMovie list \<Rightarrow> string \<Rightarrow> YTSMovie option" where
  "first_imdb_match [] imdb_id = None"
| "first_imdb_match (m # ms) imdb_id =
     (if lower (imdb_code m) = lower imdb_id then Some m else first_imdb_match ms imdb_id)"

text \<open>The last lines of \<open>task\<close> in \<open>yts_lookup_from_csv\<close>.\<close>

definition task_select ::
  "(string \<Rightarrow> string \<Rightarrow> rat) \<Rightarrow> YTSMovie list \<Rightarrow> string option \<Rightarrow> string \<Rightarrow> int option
     \<Rightarrow> YTSMovie option" where
  "task_select similarity movies imdb_id best_title best_year =
     (case (case imdb_id of
              None \<Rightarrow> None
            | Some i \<Rightarrow> if i \<noteq> [] then first_imdb_match movies i else None) of
        Some m \<Rightarrow> Some m
      | None \<Rightarrow> best_match similarity movies best_title best_year)"

text \<open>
  \<open>int(s)\<close> for the text of a CSV cell: surrounding whitespace, an optional
  sign, and decimal digits that single underscores may separate; anything
  else raises \<open>ValueError\<close>.
\<close>

definition is_digit :: "char \<Rightarrow> bool" where
  "is_digit c = (48 \<le> (of_char c :: nat) \<and> (of_char c :: nat) \<le> 57)"

fun digits_value :: "string \<Rightarrow> nat \<Rightarrow> nat option" where
  "digits_value [] acc = Some acc"
| "digits_value (c # cs) acc =
     (if is_digit c then digits_value cs (acc * 10 + (of_char c - 48))
      else if c = CHR ''_'' \<and> cs \<noteq> [] \<and> is_digit (hd cs) then digits_value cs acc
      else None)"

definition py_int :: "string \<Rightarrow> error + int" where
  "py_int s =
     (let t = strip s;
          negative = (t \<noteq> [] \<and> hd t = CHR ''-'');
          body = (if t \<noteq> [] \<and> (hd t = CHR ''-'' \<or> hd t = CHR ''+'') then tl t else t)
      in if body = [] \<or> \<not> is_digit (hd body) then Inl ValueError
         else (case digits_value body 0 of
                 None \<Rightarrow> Inl ValueError
               | Some n \<Rightarrow> Inr (if negative then - int n else int n)))"

text \<open>
  The selection in \<open>yts_lookup_from_jf_csv\<close>, from the movies found: the
  stripped \<open>imdb_id\<close> of the row, its title and the text of its year, which
  the selection converts by \<open>int(year) if year else None\<close> only when it falls
  back on \<open>_best_match\<close>.
\<close>

definition jf_select ::
  "(string \<Rightarrow> string \<Rightarrow> rat) \<Rightarrow> YTSMovie list \<Rightarrow> string \<Rightarrow> string \<Rightarrow> string option
     \<Rightarrow> error + YTSMovie option" where
  "jf_select similarity movies imdb_id title year =
     (case (if imdb_id \<noteq> [] then first_imdb_match movies imdb_id else None) of
        Some m \<Rightarrow> Inr (Some m)
      | None \<Rightarrow>
          (case year of
             None \<Rightarrow> Inr (best_match similarity movies title None)
           | Some y \<Rightarrow>
               if y = [] then Inr (best_match similarity movies title None)
               else (case py_int y of
                       Inl e \<Rightarrow> Inl e
                     | Inr n \<Rightarrow> Inr (best_match similarity movies title (Some n)))))"

text \<open>Concrete inputs: a second candidate, and a similarity that tells equal titles from others.\<close>

definition low_rated :: YTSMovie where
  "low_rated =
     \<lparr>movie_id = 7, movie_title = ''Another Film'', movie_year = 1999, movie_url = [],
      torrents = [], rating = 2, imdb_code = ''TT0000042''\<rparr>"

definition same_title :: "string \<Rightarrow> string \<Rightarrow> rat" where
  "same_title a b = (if a = b then 1 else 0)"

section \<open>Batch drivers\<close>

text \<open>\<open>str(n)\<close> for an integer, and the text an f-string puts for a value.\<close>

function show_nat :: "nat \<Rightarrow> string" where
  "show_nat n =
     (if n < 10 then [char_of (48 + n)] else show_nat (n div 10) @ [char_of (48 + n mod 10)])"
  by pat_completeness auto
termination
  by (relation "measure (\<lambda>n. n)") auto

declare show_nat.simps [simp del]

definition show_int :: "int \<Rightarrow> string" where
  "show_int i = (if i < 0 then CHR ''-'' # show_nat (nat (- i)) else show_nat (nat i))"

fun py_str :: "pyval \<Rightarrow> string" where
  "py_str PNone = ''None''"
| "py_str (PStr s) = s"
| "py_str (PInt n) = show_int n"

text \<open>\<open>sep.join(xs)\<close>\<close>

fun join :: "string \<Rightarrow> string list \<Rightarrow> string" where
  "join sep [] = []"
| "join sep [x] = x"
| "join sep (x # y # ys) = x @ sep @ join sep (y # ys)"

text \<open>
  \<open>urllib.parse.quote(name)\<close>: letters, digits and the characters
  \<open>_ . - ~ /\<close> stay; every other character is replaced by the bytes of its
  UTF-8 encoding, each written as a percent sign and two upper-case
  hexadecimal digits.
\<close>

definition hex_digit :: "nat \<Rightarrow> char" where
  "hex_digit d = (if d < 10 then char_of (48 + d) else char_of (55 + d))"

definition percent :: "nat \<Rightarrow> string" where
  "percent b = [CHR ''%'', hex_digit (b div 16), hex_digit (b mod 16)]"

definition quote_char :: "char \<Rightarrow> string" where
  "quote_char c =
     (let n = of_char c :: nat in
      if (48 \<le> n \<and> n \<le> 57) \<or> (65 \<le> n \<and> n \<le> 90) \<or> (97 \<le> n \<and> n \<le> 122)
         \<or> c \<in> set ''_.-~/'' then [c]
      else if n < 128 then percent n
      else percent (192 + n div 64) @ percent (128 + n mod 64))"

definition quote :: "string \<Rightarrow> string" where
  "quote s = concat (map quote_char s)"

text \<open>\<open>torrent.get(k, '')\<close> inside an f-string\<close>

definition get_text :: "dict \<Rightarrow> string \<Rightarrow> string" where
  "get_text t k = (case t k of None \<Rightarrow> [] | Some v \<Rightarrow> py_str v)"

definition magnet_from_torrent :: "string \<Rightarrow> dict \<Rightarrow> string" where
  "magnet_from_torrent title torrent =
     (let name = title @ ''.'' @ get_text torrent ''quality'' @ ''.'' @ get_text torrent ''type'';
          xt = ''urn:btih:'' @ get_text torrent ''hash''
      in ''magnet:?xt='' @ xt @ ''&dn='' @ quote name)"

text \<open>\<open>_detect_current_quality\<close>: the first token of the table found in the lower-cased name.\<close>

fun first_token :: "(string \<times> rat) list \<Rightarrow> string \<Rightarrow> rat" where
  "first_token [] s = 0"
| "first_token ((token, rank) # rest) s = (if contains s token then rank else first_token rest s)"

definition detect_current_quality :: "string \<Rightarrow> rat" where
  "detect_current_quality name =
     first_token
       [(''2160p'', 3), (''4k'', 3), (''uhd'', 3), (''1440p'', 5 / 2), (''1080p'', 2),
        (''1024p'', 3 / 2), (''720p'', 1)]
       (lower name)"

text \<open>
  A row of the CSV file maps column names to texts; a column that is
  missing or has no value maps to nothing. An enrichment holds the six
  columns that the drivers add.
\<close>

type_synonym row = "string \<rightharpoonup> string"

record enrichment =
  yts_title :: string
  yts_year :: string
  yts_url :: string
  yts_quality_available :: string
  yts_next_quality :: string
  magnet :: string

definition empty_enrichment :: enrichment where
  "empty_enrichment =
     \<lparr>yts_title = [], yts_year = [], yts_url = [], yts_quality_available = [],
      yts_next_quality = [], magnet = []\<rparr>"

text \<open>\<open>row.get(k, "")\<close>, and \<open>row.get(a) or row.get(b) or ""\<close>\<close>

definition row_get :: "row \<Rightarrow> string \<Rightarrow> string" where
  "row_get r k = (case r k of None \<Rightarrow> [] | Some v \<Rightarrow> v)"

fun first_nonempty :: "row \<Rightarrow> string list \<Rightarrow> string" where
  "first_nonempty r [] = []"
| "first_nonempty r (k # ks) = (if row_get r k \<noteq> [] then row_get r k else first_nonempty r ks)"

text \<open>The enrichment columns of the row itself: \<open>{c: row.get(c, "") for c in add_cols}\<close>.\<close>

definition carried :: "row \<Rightarrow> enrichment" where
  "carried r =
     \<lparr>yts_title = row_get r ''yts_title'', yts_year = row_get r ''yts_year'',
      yts_url = row_get r ''yts_url'',
      yts_quality_available = row_get r ''yts_quality_available'',
      yts_next_quality = row_get r ''yts_next_quality'', magnet = row_get r ''magnet''\<rparr>"

text \<open>The label \<open>f"{q}.{typ}"\<close> of a torrent.\<close>

definition label :: "dict \<Rightarrow> string" where
  "label t = py_str (get_or_empty t ''quality'') @ ''.'' @ py_str (get_or_empty t ''type'')"

text \<open>
  The loop of \<open>process_one\<close> over \<open>match.torrents\<close>: it collects the labels
  and lower-cases each quality to look its rank up, which raises on a quality
  that is not a string. The magnets it builds for the better torrents are
  only printed.
\<close>

fun all_qualities :: "dict list \<Rightarrow> error + string list" where
  "all_qualities [] = Inr []"
| "all_qualities (t # ts) =
     (case py_lower (get_or_empty t ''quality'') of
        Inl e \<Rightarrow> Inl e
      | Inr q \<Rightarrow> (case all_qualities ts of Inl e \<Rightarrow> Inl e | Inr all_q \<Rightarrow> Inr (label t # all_q)))"

text \<open>\<open>magnet_from_torrent(match.title, next_t) if next_t else ""\<close>: an empty dictionary counts as false.\<close>

definition magnet_of :: "string \<Rightarrow> dict option \<Rightarrow> string" where
  "magnet_of title next_t =
     (case next_t of
        None \<Rightarrow> []
      | Some t \<Rightarrow> if t = Map.empty then [] else magnet_from_torrent title t)"

text \<open>
  \<open>process_one\<close>, given the row and what \<open>task(row)\<close> came to: the pair it
  returns or the exception it raises. The \<open>try\<close> around the call catches
  every exception but an interrupt.
\<close>

definition process_one :: "row \<Rightarrow> error + YTSMovie option \<Rightarrow> error + string list" where
  "process_one r task_result =
     (let src = first_nonempty r [''path'', ''folder_path''];
          cur_rank = detect_current_quality src
      in case task_result of
           Inl e \<Rightarrow> if e = KeyboardInterrupt then Inl e else Inr [src, [], [], [], [], [], []]
         | Inr None \<Rightarrow> Inr [src, [], [], [], [], [], []]
         | Inr (Some match) \<Rightarrow>
             (case all_qualities (torrents match) of
                Inl e \<Rightarrow> Inl e
              | Inr all_q \<Rightarrow>
                  (case choose_next_quality match cur_rank of
                     Inl e \<Rightarrow> Inl e
                   | Inr (next_q, next_t) \<Rightarrow>
                       Inr [src, movie_title match, show_int (movie_year match), movie_url match,
                            join ''|'' (sorted_list_of_set (set all_q)), next_q,
                            magnet_of (movie_title match) next_t])))"

text \<open>
  The body of the write loop of \<open>yts_lookup_from_csv\<close> for one row: the
  enrichment written with the row, or the interrupt that is raised again
  before anything is written. Reading \<open>combined[1]\<close> to \<open>combined[6]\<close> from
  a shorter list would raise \<open>IndexError\<close>, which the handler of the loop
  catches like every other exception.
\<close>

definition has_enrichment :: "row \<Rightarrow> bool" where
  "has_enrichment r =
     (row_get r ''yts_next_quality'' \<noteq> [] \<or> row_get r ''magnet'' \<noteq> [] \<or> row_get r ''yts_title'' \<noteq> [])"

definition lookup_row :: "bool \<Rightarrow> row \<Rightarrow> error + YTSMovie option \<Rightarrow> error + enrichment" where
  "lookup_row refresh r task_result =
     (if \<not> refresh \<and> has_enrichment r then Inr (carried r)
      else (case process_one r task_result of
              Inr [src, title, year, url, available, next_q, mag] \<Rightarrow>
                Inr \<lparr>yts_title = title, yts_year = year, yts_url = url,
                     yts_quality_available = available, yts_next_quality = next_q, magnet = mag\<rparr>
            | Inr _ \<Rightarrow> Inr (carried r)
            | Inl e \<Rightarrow> if e = KeyboardInterrupt then Inl e else Inr (carried r)))"

text \<open>
  The loop over the rows, each with what \<open>task(row)\<close> comes to when it is
  called: the enrichments written, in order, and the exception that ended the
  loop, if one did.
\<close>

fun lookup_rows :: "bool \<Rightarrow> (row \<times> (error + YTSMovie option)) list \<Rightarrow> enrichment list \<times> error option" where
  "lookup_rows refresh [] = ([], None)"
| "lookup_rows refresh ((r, task_result) # rest) =
     (case lookup_row refresh r task_result of
        Inl e \<Rightarrow> ([], Some e)
      | Inr written \<Rightarrow>
          (case lookup_rows refresh rest of (out, err) \<Rightarrow> (written # out, err)))"

text \<open>
  The enrichment that \<open>yts_lookup_from_jf_csv\<close> builds for a row from the
  candidate selected; an exception raised here leaves the driver.
\<close>

definition jf_enriched :: "YTSMovie option \<Rightarrow> rat \<Rightarrow> error + enrichment" where
  "jf_enriched selected cur_rank =
     (case selected of
        None \<Rightarrow> Inr empty_enrichment
      | Some match \<Rightarrow>
          (let all_q = map label (torrents match) in
           case choose_next_quality match cur_rank of
             Inl e \<Rightarrow> Inl e
           | Inr (want_q, next_tor) \<Rightarrow>
               Inr \<lparr>yts_title = movie_title match,
                    yts_year = (if movie_year match \<noteq> 0 then show_int (movie_year match) else []),
                    yts_url = movie_url match,
                    yts_quality_available = join '','' all_q,
                    yts_next_quality = want_q,
                    magnet = magnet_of (movie_title match) next_tor\<rparr>))"

text \<open>Concrete inputs for the batch drivers.\<close>

definition two_encodes :: YTSMovie where
  "two_encodes =
     candidate 6 [variant ''720p'' ''web'', variant ''1080p'' ''web'', variant ''1080p'' ''web'']"

definition numeric_quality :: YTSMovie where
  "numeric_quality = candidate 6 [[''quality'' \<mapsto> PInt 1080, ''type'' \<mapsto> PStr ''web'']]"

definition enriched_row :: row where
  "enriched_row =
     [''path'' \<mapsto> ''/media/Title (2020) 480p'', ''title'' \<mapsto> ''Title'', ''year'' \<mapsto> ''2020'',
      ''yts_title'' \<mapsto> ''Title'', ''yts_year'' \<mapsto> ''2020'',
      ''yts_url'' \<mapsto> ''https://yts.mx/movies/title'',
      ''yts_quality_available'' \<mapsto> ''720p.web'', ''yts_next_quality'' \<mapsto> ''720p'',
      ''magnet'' \<mapsto> ''magnet:?xt=urn:btih:ABC&dn=Title.720p.web'']"

definition fresh_row :: row where
  "fresh_row = [''path'' \<mapsto> ''/media/Other (1999)'', ''title'' \<mapsto> ''Other'', ''year'' \<mapsto> ''19xx'']"

section \<open>Title normaliser\<close>

text \<open>
  A title is arbitrary text: a list of Unicode code points. The patterns of
  \<open>re\<close> and the methods of \<open>str\<close> consult the character tables of the
  interpreter, which are not part of the repository; they are parameters of
  the normaliser: \<open>str.isalnum\<close> of a character (\<open>\w\<close> is such a character or
  the underscore), \<open>str.isspace\<close> (\<open>\s\<close> and \<open>strip\<close>), the decimal digits
  (\<open>\d\<close>) and \<open>str.lower\<close> on whole strings.
\<close>

record unicode_tables =
  uc_alnum :: "nat \<Rightarrow> bool"
  uc_space :: "nat \<Rightarrow> bool"
  uc_decimal :: "nat \<Rightarrow> bool"
  uc_lower :: "nat list \<Rightarrow> nat list"

text \<open>\<open>re.sub(r"[class]+", " ", s)\<close>: every maximal run of characters of the class becomes one space.\<close>

function sub_runs :: "(nat \<Rightarrow> bool) \<Rightarrow> nat list \<Rightarrow> nat list" where
  "sub_runs P [] = []"
| "sub_runs P (c # cs) = (if P c then 32 # sub_runs P (dropWhile P cs) else c # sub_runs P cs)"
  by pat_completeness auto
termination
  by (relation "measure (\<lambda>(P, s). length s)") (auto simp: length_dropWhile_le less_Suc_eq_le)

text \<open>
  \<open>re.sub(r"\((\d{4})\)", "", s)\<close>: scanning from the left, a parenthesised
  group of four digits is dropped and the scan goes on behind it.
\<close>

definition year_at :: "(nat \<Rightarrow> bool) \<Rightarrow> nat list \<Rightarrow> bool" where
  "year_at D s =
     (6 \<le> length s \<and> s ! 0 = 40 \<and> D (s ! 1) \<and> D (s ! 2) \<and> D (s ! 3) \<and> D (s ! 4) \<and> s ! 5 = 41)"

function drop_years :: "(nat \<Rightarrow> bool) \<Rightarrow> nat list \<Rightarrow> nat list" where
  "drop_years D [] = []"
| "drop_years D (c # cs) =
     (if year_at D (c # cs) then drop_years D (drop 5 cs) else c # drop_years D cs)"
  by pat_completeness auto
termination
  by (relation "measure (\<lambda>(D, s). length s)") auto

definition ustrip :: "(nat \<Rightarrow> bool) \<Rightarrow> nat list \<Rightarrow> nat list" where
  "ustrip P s = rev (dropWhile P (rev (dropWhile P s)))"

text \<open>\<open>_sanitize_title\<close>, statement by statement. The code points 46, 95 and 32 are the dot, the underscore and the space.\<close>

definition sanitize_title :: "unicode_tables \<Rightarrow> nat list \<Rightarrow> nat list" where
  "sanitize_title U s =
     (let s1 = sub_runs (\<lambda>c. c = 46 \<or> c = 95) s;
          s2 = drop_years (uc_decimal U) s1;
          s3 = map (\<lambda>c. if (uc_alnum U c \<or> c = 95) \<or> uc_space U c then c else 32) s2;
          s4 = sub_runs (uc_space U) s3
      in uc_lower U (ustrip (uc_space U) s4))"

text \<open>
  The tables on the code points below 256, where \<open>str.lower\<close> works
  character by character, and what it means for tables to agree with them
  there.
\<close>

definition latin1_alnum :: "nat \<Rightarrow> bool" where
  "latin1_alnum n =
     ((48 \<le> n \<and> n \<le> 57) \<or> (65 \<le> n \<and> n \<le> 90) \<or> (97 \<le> n \<and> n \<le> 122)
      \<or> n = 170 \<or> n = 178 \<or> n = 179 \<or> n = 181 \<or> n = 185 \<or> n = 186
      \<or> (188 \<le> n \<and> n \<le> 190) \<or> (192 \<le> n \<and> n \<le> 214) \<or> (216 \<le> n \<and> n \<le> 246)
      \<or> (248 \<le> n \<and> n \<le> 255))"

definition ascii_digit :: "nat \<Rightarrow> bool" where
  "ascii_digit n = (48 \<le> n \<and> n \<le> 57)"

definition latin1_tables :: unicode_tables where
  "latin1_tables =
     \<lparr>uc_alnum = latin1_alnum, uc_space = latin1_space, uc_decimal = ascii_digit,
      uc_lower = map latin1_lower\<rparr>"

definition agrees_on_latin1 :: "unicode_tables \<Rightarrow> bool" where
  "agrees_on_latin1 U =
     ((\<forall>n < 256. uc_alnum U n = latin1_alnum n \<and> uc_space U n = latin1_space n
                  \<and> uc_decimal U n = ascii_digit n) \<and>
      (\<forall>s. (\<forall>n \<in> set s. n < 256) \<longrightarrow> uc_lower U s = map latin1_lower s))"

text \<open>
  An excerpt of the tables of CPython that is exact on U+0000 to U+00FF, on
  U+0130 (capital I with dot above, a letter whose lower case is the two
  code points U+0069 U+0307), on U+0131 and on U+0307 (combining dot above,
  neither alphanumeric nor a space). No statement below reads it elsewhere.
\<close>

definition ucd_excerpt :: unicode_tables where
  "ucd_excerpt =
     \<lparr>uc_alnum = (\<lambda>n. latin1_alnum n \<or> n = 304 \<or> n = 305),
      uc_space = latin1_space,
      uc_decimal = ascii_digit,
      uc_lower = (\<lambda>s. concat (map (\<lambda>n. if n = 304 then [105, 775] else [latin1_lower n]) s))\<rparr>"

text \<open>Titles as code points: Istanbul written with the dotted capital I, and an ASCII file name.\<close>

definition title_istanbul :: "nat list" where
  "title_istanbul = [304, 115, 116, 97, 110, 98, 117, 108]"

definition title_file_name :: "nat list" where
  "title_file_name = map of_char ''The.Big_Film (1999) [HD]''"

text \<open>
  The text before the last step \<open>lower()\<close>, and the shape it has: only
  alphanumeric characters and single spaces, none at either end.
\<close>

definition before_lower :: "unicode_tables \<Rightarrow> nat list \<Rightarrow> nat list" where
  "before_lower U s =
     ustrip (uc_space U)
       (sub_runs (uc_space U)
          (map (\<lambda>c. if (uc_alnum U c \<or> c = 95) \<or> uc_space U c then c else 32)
             (drop_years (uc_decimal U) (sub_runs (\<lambda>c. c = 46 \<or> c = 95) s))))"

fun isolated :: "(nat \<Rightarrow> bool) \<Rightarrow> nat list \<Rightarrow> bool" where
  "isolated P [] = True"
| "isolated P [c] = True"
| "isolated P (a # b # cs) = (\<not> (P a \<and> P b) \<and> isolated P (b # cs))"

definition clean :: "nat list \<Rightarrow> bool" where
  "clean s =
     ((\<forall>c \<in> set s. c = 32 \<or> latin1_alnum c) \<and> isolated latin1_space s \<and>
      (s = [] \<or> (\<not> latin1_space (hd s) \<and> \<not> latin1_space (last s))))"

section \<open>Properties of the quality-upgrade resolver\<close>

lemmas eval_simps =
  get_or_empty_def bluray_key_def sort_bluray_first_def first_of_def sort_reverse_def
  RATING_UHD_THRESHOLD_def PREF_QUALITIES_HIGH_def PREF_QUALITIES_DEFAULT_def quality_rank_def
  lower_def lower_char_def latin1_lower_def char_of_def bit_0 Let_def
  variant_def candidate_def

lemma groups_ok_setdefault:
  "groups_ok ts bq \<Longrightarrow> t \<in> set ts \<Longrightarrow> py_lower (get_or_empty t ''quality'') = Inr q \<Longrightarrow> q \<noteq> []
   \<Longrightarrow> groups_ok ts (setdefault_append bq q t)"
  by (induction bq q t rule: setdefault_append.induct) (auto simp: groups_ok_def)

lemma groups_ok_group:
  "group_torrents ts' bq = Inr bq' \<Longrightarrow> groups_ok ts bq \<Longrightarrow> set ts' \<subseteq> set ts \<Longrightarrow> groups_ok ts bq'"
proof (induction ts' bq arbitrary: bq' rule: group_torrents.induct)
  case (1 bq)
  then show ?case by simp
next
  case (2 t ts' bq)
  then show ?case
    by (auto split: sum.splits if_splits intro: groups_ok_setdefault)
qed

lemma group_total:
  "\<forall>t \<in> set ts'. is_str (get_or_empty t ''quality'') \<Longrightarrow> \<exists>bq'. group_torrents ts' bq = Inr bq'"
proof (induction ts' bq rule: group_torrents.induct)
  case (1 bq)
  then show ?case by simp
next
  case (2 t ts' bq)
  then show ?case
    by (cases "get_or_empty t ''quality''") (auto simp: is_str_def)
qed

lemma sort_keys_length: "sort_keys arr = Inr ks \<Longrightarrow> length ks = length arr"
  by (induction arr arbitrary: ks) (auto split: sum.splits)

lemma sort_bluray_first_set:
  assumes "sort_bluray_first arr = Inr arr'"
  shows "set arr' = set arr"
proof -
  from assms obtain ks where ks: "sort_keys arr = Inr ks"
    and arr': "arr' = map snd (sort_key fst (zip ks arr))"
    by (auto simp: sort_bluray_first_def split: sum.splits)
  have "set arr' = set (map snd (zip ks arr))"
    by (simp add: arr')
  also have "map snd (zip ks arr) = arr"
    using sort_keys_length [OF ks] by simp
  finally show ?thesis .
qed

lemma sort_keys_total:
  "\<forall>t \<in> set arr. is_str (get_or_empty t ''type'') \<Longrightarrow> \<exists>ks. sort_keys arr = Inr ks"
proof (induction arr)
  case Nil
  then show ?case by simp
next
  case (Cons t arr)
  then show ?case
    by (cases "get_or_empty t ''type''") (auto simp: is_str_def bluray_key_def)
qed

lemma groups_ok_sort:
  "sort_groups bq = Inr bq' \<Longrightarrow> groups_ok ts bq \<Longrightarrow> groups_ok ts bq'"
proof (induction bq arbitrary: bq' rule: sort_groups.induct)
  case 1
  then show ?case by simp
next
  case (2 q arr rest)
  from "2.prems"(1) obtain arr' rest' where arr': "sort_bluray_first arr = Inr arr'"
    and rest': "sort_groups rest = Inr rest'" and bq': "bq' = (q, arr') # rest'"
    by (auto split: sum.splits)
  from "2.prems"(2) have "groups_ok ts rest"
    by (simp add: groups_ok_def)
  with "2.IH" [OF arr' rest'] have "groups_ok ts rest'" .
  moreover have "set arr' = set arr"
    using arr' by (rule sort_bluray_first_set)
  ultimately show ?case
    using "2.prems"(2) by (auto simp: groups_ok_def bq')
qed

lemma sort_groups_total:
  "\<forall>(k, arr) \<in> set bq. \<forall>t \<in> set arr. is_str (get_or_empty t ''type'') \<Longrightarrow> \<exists>bq'. sort_groups bq = Inr bq'"
proof (induction bq rule: sort_groups.induct)
  case 1
  then show ?case by simp
next
  case (2 q arr rest)
  then obtain ks where "sort_keys arr = Inr ks"
    using sort_keys_total [of arr] by auto
  with 2 show ?case
    by (auto simp: sort_bluray_first_def)
qed

lemma pick_preferred_ok:
  "groups_ok ts bq \<Longrightarrow> \<exists>r. pick_preferred prefs bq cur = Inr r \<and>
     (\<forall>want t. r = Some (want, t) \<longrightarrow> want \<in> set prefs \<and> cur < quality_rank (lower want) \<and> t \<in> set ts
        \<and> py_lower (get_or_empty t ''quality'') = Inr (lower want))"
proof (induction prefs bq cur rule: pick_preferred.induct)
  case (1 bq cur_rank)
  then show ?case by simp
next
  case (2 want rest bq cur_rank)
  show ?case
  proof (cases "quality_rank (lower want) > cur_rank \<and> map_of bq (lower want) \<noteq> None")
    case True
    then obtain arr where arr: "map_of bq (lower want) = Some arr" by auto
    then have "(lower want, arr) \<in> set bq" by (rule map_of_SomeD)
    with 2(2) have "arr \<noteq> []" and "\<forall>t \<in> set arr. t \<in> set ts \<and> py_lower (get_or_empty t ''quality'') = Inr (lower want)"
      by (auto simp: groups_ok_def)
    then show ?thesis using True arr
      by (cases arr) (auto simp: first_of_def Let_def)
  next
    case False
    then have "pick_preferred (want # rest) bq cur_rank = pick_preferred rest bq cur_rank"
      by (auto simp: Let_def)
    moreover from False 2 have "\<exists>r. pick_preferred rest bq cur_rank = Inr r \<and>
     (\<forall>want t. r = Some (want, t) \<longrightarrow> want \<in> set rest \<and> cur_rank < quality_rank (lower want) \<and> t \<in> set ts
        \<and> py_lower (get_or_empty t ''quality'') = Inr (lower want))"
      by simp
    ultimately show ?thesis by auto
  qed
qed

lemma fallback_candidates_ok:
  "groups_ok ts bq \<Longrightarrow> \<exists>cs. fallback_candidates bq cur = Inr cs \<and>
     (\<forall>(rank, qk, t) \<in> set cs. qk \<noteq> [] \<and> cur < quality_rank qk \<and> t \<in> set ts
        \<and> py_lower (get_or_empty t ''quality'') = Inr qk)"
proof (induction bq cur rule: fallback_candidates.induct)
  case (1 cur_rank)
  then show ?case by simp
next
  case (2 qk arr rest cur_rank)
  from 2(3) have rest: "groups_ok ts rest" and arr: "arr \<noteq> []" "qk \<noteq> []"
    "\<forall>t \<in> set arr. t \<in> set ts \<and> py_lower (get_or_empty t ''quality'') = Inr qk"
    by (auto simp: groups_ok_def)
  show ?case
  proof (cases "quality_rank qk > cur_rank")
    case True
    with 2(1)[OF refl True _ rest] arr show ?thesis
      by (cases arr) (auto simp: first_of_def Let_def)
  next
    case False
    with 2(2)[OF refl False rest] show ?thesis by (auto simp: Let_def)
  qed
qed

lemma sort_reverse_set: "set (sort_reverse cs) = set cs"
  by (simp add: sort_reverse_def)

lemma setdefault_append_keys:
  "set (map fst (setdefault_append bq q t)) = insert q (set (map fst bq))"
  by (induction bq q t rule: setdefault_append.induct) auto

lemma setdefault_append_distinct:
  "distinct (map fst bq) \<Longrightarrow> distinct (map fst (setdefault_append bq q t))"
proof (induction bq q t rule: setdefault_append.induct)
  case (1 q t)
  then show ?case by simp
next
  case (2 k arr rest q t)
  then show ?case
    using setdefault_append_keys [of rest q t] by auto
qed

lemma group_torrents_distinct:
  "group_torrents ts bq = Inr bq' \<Longrightarrow> distinct (map fst bq) \<Longrightarrow> distinct (map fst bq')"
proof (induction ts bq arbitrary: bq' rule: group_torrents.induct)
  case (1 bq)
  then show ?case by simp
next
  case (2 t ts bq)
  then show ?case
    by (auto split: sum.splits if_splits intro: setdefault_append_distinct)
qed

lemma sort_groups_keys: "sort_groups bq = Inr bq' \<Longrightarrow> map fst bq' = map fst bq"
  by (induction bq arbitrary: bq' rule: sort_groups.induct) (auto split: sum.splits)

lemma fallback_candidates_labels:
  "fallback_candidates bq cur = Inr cs \<Longrightarrow>
   set (map (\<lambda>(rank, qk, t). qk) cs) \<subseteq> set (map fst bq) \<and>
   (distinct (map fst bq) \<longrightarrow> distinct (map (\<lambda>(rank, qk, t). qk) cs))"
proof (induction bq cur arbitrary: cs rule: fallback_candidates.induct)
  case (1 cur_rank)
  then show ?case by simp
next
  case (2 qk arr rest cur_rank)
  show ?case
  proof (cases "quality_rank qk > cur_rank")
    case True
    with "2.prems" obtain t cs' where t: "first_of arr = Inr t"
      and cs': "fallback_candidates rest cur_rank = Inr cs'" and cs: "cs = (quality_rank qk, qk, t) # cs'"
      by (auto simp: Let_def split: sum.splits)
    from "2.IH"(1) [OF refl True t cs'] cs show ?thesis
      by auto
  next
    case False
    with "2.prems" have "fallback_candidates rest cur_rank = Inr cs"
      by (simp add: Let_def)
    from "2.IH"(2) [OF refl False this] show ?thesis
      by auto
  qed
qed

text \<open>
  The labels of the fallback candidates are distinct, so sorting the tuples
  never compares two torrents.
\<close>

lemma fallback_labels_distinct:
  assumes "group_torrents ts [] = Inr grouped" and "sort_groups grouped = Inr bq"
    and "fallback_candidates bq cur = Inr cs"
  shows "distinct (map (\<lambda>(rank, qk, t). qk) cs)"
proof -
  from assms(1) have "distinct (map fst grouped)"
    by (rule group_torrents_distinct) simp
  with sort_groups_keys [OF assms(2)] have "distinct (map fst bq)"
    by simp
  with fallback_candidates_labels [OF assms(3)] show ?thesis
    by simp
qed

lemma latin1_lower_idem: "latin1_lower (latin1_lower n) = latin1_lower n"
  by (auto simp: latin1_lower_def)

lemma latin1_lower_less: "n < 256 \<Longrightarrow> latin1_lower n < 256"
  by (auto simp: latin1_lower_def)

lemma of_char_less_256: "of_char c < (256::nat)"
proof -
  have "(of_char c :: nat) mod 256 < 256" by simp
  then show ?thesis by (simp only: of_char_mod_256)
qed

lemma lower_char_idem: "lower_char (lower_char c) = lower_char c"
proof -
  have "latin1_lower (of_char c) mod 256 = latin1_lower (of_char c)"
    using latin1_lower_less [OF of_char_less_256 [of c]] by simp
  then show ?thesis
    by (simp add: lower_char_def latin1_lower_idem)
qed

lemma lower_idem: "lower (lower s) = lower s"
  by (simp add: lower_def lower_char_idem)

lemma lower_Nil_iff: "lower s = [] \<longleftrightarrow> s = []"
  by (simp add: lower_def)

lemma pref_lower:
  "want \<in> set PREF_QUALITIES_HIGH \<union> set PREF_QUALITIES_DEFAULT \<Longrightarrow> lower want = want \<and> want \<noteq> []"
  by (auto simp: PREF_QUALITIES_HIGH_def PREF_QUALITIES_DEFAULT_def lower_def lower_char_def
      latin1_lower_def char_of_def bit_0)

lemma py_lower_quality:
  assumes "py_lower (get_or_empty t ''quality'') = Inr k" and "k \<noteq> []"
  shows "\<exists>s. t ''quality'' = Some (PStr s) \<and> lower s = k"
proof (cases "t ''quality''")
  case None
  with assms show ?thesis by (simp add: get_or_empty_def lower_def)
next
  case (Some v)
  with assms show ?thesis
    by (cases v) (auto simp: get_or_empty_def lower_def split: if_splits)
qed

lemma choose_next_quality_cases:
  assumes "choose_next_quality m r = Inr (l, v)"
  shows "(l = [] \<and> v = None) \<or>
         (\<exists>t. v = Some t \<and> l \<noteq> [] \<and> lower l = l \<and> r < quality_rank l \<and> t \<in> set (torrents m)
            \<and> py_lower (get_or_empty t ''quality'') = Inr l)"
proof -
  let ?prefs = "if rating m \<ge> RATING_UHD_THRESHOLD then PREF_QUALITIES_HIGH else PREF_QUALITIES_DEFAULT"
  from assms obtain grouped bq where grouped: "group_torrents (torrents m) [] = Inr grouped"
    and bq: "sort_groups grouped = Inr bq"
    by (auto simp: choose_next_quality_def split: sum.splits)
  have "groups_ok (torrents m) []"
    by (simp add: groups_ok_def)
  with grouped have "groups_ok (torrents m) grouped"
    by (rule groups_ok_group) simp
  with bq have ok: "groups_ok (torrents m) bq"
    by (rule groups_ok_sort)
  from pick_preferred_ok [OF ok, of ?prefs r] obtain p where p: "pick_preferred ?prefs bq r = Inr p"
    and p_ok: "\<And>want t. p = Some (want, t) \<Longrightarrow> want \<in> set ?prefs \<and> r < quality_rank (lower want)
        \<and> t \<in> set (torrents m) \<and> py_lower (get_or_empty t ''quality'') = Inr (lower want)"
    by blast
  show ?thesis
  proof (cases p)
    case (Some a)
    obtain want t where a: "a = (want, t)" by (cases a)
    from assms grouped bq p Some a have res: "l = want" "v = Some t"
      by (simp_all add: choose_next_quality_def)
    from p_ok [of want t] Some a have w: "want \<in> set ?prefs" "r < quality_rank (lower want)"
      "t \<in> set (torrents m)" "py_lower (get_or_empty t ''quality'') = Inr (lower want)"
      by simp_all
    from w(1) have "lower want = want \<and> want \<noteq> []"
      by (intro pref_lower) (auto split: if_splits)
    with w res show ?thesis by simp
  next
    case None
    from fallback_candidates_ok [OF ok, of r] obtain cs where cs: "fallback_candidates bq r = Inr cs"
      and cs_ok: "\<forall>(rank, qk, t) \<in> set cs. qk \<noteq> [] \<and> r < quality_rank qk \<and> t \<in> set (torrents m)
        \<and> py_lower (get_or_empty t ''quality'') = Inr qk"
      by blast
    show ?thesis
    proof (cases "sort_reverse cs")
      case Nil
      with assms grouped bq p None cs show ?thesis
        by (simp add: choose_next_quality_def)
    next
      case (Cons c rest)
      obtain rank qk tor where c: "c = (rank, qk, tor)" by (cases c)
      from assms grouped bq p None cs Cons c have res: "l = qk" "v = Some tor"
        by (simp_all add: choose_next_quality_def)
      have "c \<in> set (sort_reverse cs)"
        by (simp add: Cons)
      then have "c \<in> set cs"
        by (simp only: sort_reverse_set)
      with cs_ok c have q: "qk \<noteq> []" "r < quality_rank qk" "tor \<in> set (torrents m)"
        "py_lower (get_or_empty tor ''quality'') = Inr qk"
        by auto
      from py_lower_quality [OF q(4) q(1)] have "lower qk = qk"
        by (auto simp: lower_idem)
      with q res show ?thesis by simp
    qed
  qed
qed

lemma choose_next_quality_total:
  assumes "\<forall>t \<in> set (torrents m). well_typed t"
  shows "\<exists>res. choose_next_quality m r = Inr res"
proof -
  let ?prefs = "if rating m \<ge> RATING_UHD_THRESHOLD then PREF_QUALITIES_HIGH else PREF_QUALITIES_DEFAULT"
  from assms obtain grouped where grouped: "group_torrents (torrents m) [] = Inr grouped"
    using group_total [of "torrents m" "[]"] by (auto simp: well_typed_def)
  have "groups_ok (torrents m) []"
    by (simp add: groups_ok_def)
  with grouped have g: "groups_ok (torrents m) grouped"
    by (rule groups_ok_group) simp
  with assms have "\<forall>(k, arr) \<in> set grouped. \<forall>t \<in> set arr. is_str (get_or_empty t ''type'')"
    by (auto simp: groups_ok_def well_typed_def)
  then obtain bq where bq: "sort_groups grouped = Inr bq"
    using sort_groups_total by blast
  with g have ok: "groups_ok (torrents m) bq"
    by (rule groups_ok_sort [rotated])
  from pick_preferred_ok [OF ok, of ?prefs r] obtain p where p: "pick_preferred ?prefs bq r = Inr p"
    by blast
  from fallback_candidates_ok [OF ok, of r] obtain cs where cs: "fallback_candidates bq r = Inr cs"
    by blast
  show ?thesis
    using grouped bq p cs
    by (auto simp: choose_next_quality_def split: option.splits list.splits)
qed

text \<open>
  C1. Whenever \<open>_choose_next_quality\<close> returns, it returns either the empty
  label with no variant or a label whose rank on the \<open>QUALITY_RANK\<close> scale is
  strictly greater than \<open>cur_rank\<close>; and it does return on every candidate
  whose torrents are well typed.
\<close>

theorem choose_next_quality_exceeds_current_rank:
  "((\<forall>t \<in> set (torrents m). well_typed t) \<longrightarrow> (\<exists>res. choose_next_quality m cur_rank = Inr res)) \<and>
   (\<forall>label variant. choose_next_quality m cur_rank = Inr (label, variant) \<longrightarrow>
      (label = [] \<and> variant = None) \<or> cur_rank < quality_rank label)"
  using choose_next_quality_total [of m cur_rank] choose_next_quality_cases [of m cur_rank]
  by blast

theorem choose_next_quality_exceeds_current_rank_witness:
  "list_all well_typed (torrents (candidate 6 [variant ''720p'' ''web'', variant ''4K'' ''web''])) \<and>
   choose_next_quality (candidate 6 [variant ''720p'' ''web'', variant ''4K'' ''web'']) 2
     = Inr (''4k'', Some (variant ''4K'' ''web'')) \<and>
   2 < quality_rank ''4k''"
  using choose_next_quality_exceeds_current_rank
    [of "candidate 6 [variant ''720p'' ''web'', variant ''4K'' ''web'']" 2]
  by (simp add: choose_next_quality_def is_str_def well_typed_def eval_simps)


text \<open>
  C10. Whenever \<open>_choose_next_quality\<close> returns a variant, the variant is an
  element of the candidate's torrents and its quality equals the returned
  label up to case; the label is non-empty exactly when a variant is returned.
\<close>

theorem choose_next_quality_variant_of_candidate:
  "\<forall>label variant. choose_next_quality m cur_rank = Inr (label, variant) \<longrightarrow>
     (label \<noteq> [] \<longleftrightarrow> variant \<noteq> None) \<and>
     (\<forall>t. variant = Some t \<longrightarrow>
        t \<in> set (torrents m) \<and> (\<exists>s. t ''quality'' = Some (PStr s) \<and> lower s = lower label))"
proof (intro allI impI)
  fix label variant
  assume "choose_next_quality m cur_rank = Inr (label, variant)"
  from choose_next_quality_cases [OF this] show
    "(label \<noteq> [] \<longleftrightarrow> variant \<noteq> None) \<and>
     (\<forall>t. variant = Some t \<longrightarrow>
        t \<in> set (torrents m) \<and> (\<exists>s. t ''quality'' = Some (PStr s) \<and> lower s = lower label))"
    by (auto dest: py_lower_quality)
qed

theorem choose_next_quality_variant_of_candidate_witness:
  "choose_next_quality (candidate 5 [variant ''1080P'' ''web'', variant ''1080p'' ''BluRay'']) 1
     = Inr (''1080p'', Some (variant ''1080p'' ''BluRay'')) \<and>
   variant ''1080p'' ''BluRay'' \<in> set (torrents (candidate 5 [variant ''1080P'' ''web'', variant ''1080p'' ''BluRay'']))"
  using choose_next_quality_variant_of_candidate
    [of "candidate 5 [variant ''1080P'' ''web'', variant ''1080p'' ''BluRay'']" 1]
  by (simp add: choose_next_quality_def eval_simps)

section \<open>Properties of the mirror registry\<close>



lemma split_at_not_Nil: "split_at sep word s \<noteq> []"
  by (induction s arbitrary: word) simp_all











lemma normalize_root_trailing_slash:
  "normalize_root ''https://yts.mx/api/v2/'' = ''https://yts.mx/api/v2/api/v2''"
  by (simp add: normalize_root_def endswith_def rstrip_slash_def)




section \<open>Properties of the search client\<close>

lemma attempt_loop_stop:
  "net url (Suc a) = NotJson \<or>
   (\<exists>ms el. net url (Suc a) = Movies ms el \<and> \<not> (el \<ge> slow_after \<and> int (Suc a) \<le> retries)) \<or>
   (\<exists>e. net url (Suc a) = Raised e \<and> (is_dns_error e \<or> \<not> int (Suc a) \<le> retries)) \<Longrightarrow>
   fst (attempt_loop net retries slow_after url a b) = [Get url (Suc a)]"
  by (subst attempt_loop.simps) auto

lemma attempt_loop_retry:
  "(\<exists>ms el. net url (Suc a) = Movies ms el \<and> el \<ge> slow_after \<and> int (Suc a) \<le> retries) \<or>
   (\<exists>e. net url (Suc a) = Raised e \<and> \<not> is_dns_error e \<and> int (Suc a) \<le> retries) \<Longrightarrow>
   fst (attempt_loop net retries slow_after url a b)
     = Get url (Suc a) # Sleep b # fst (attempt_loop net retries slow_after url (Suc a) (b * 2))"
  by (subst attempt_loop.simps) (auto split: prod.splits)

lemma schedule_step:
  fixes b :: rat
  assumes "evs = concat (map (\<lambda>k. [Get url (Suc (Suc a + k)), Sleep (b * 2 * 2 ^ k)]) [0..<n])
             @ [Get url (Suc (Suc a + n))]"
  shows "Get url (Suc a) # Sleep b # evs
     = concat (map (\<lambda>k. [Get url (Suc (a + k)), Sleep (b * 2 ^ k)]) [0..<Suc n])
         @ [Get url (Suc (a + Suc n))]"
proof -
  have "[0..<Suc n] = 0 # map Suc [0..<n]"
    by (simp add: upt_conv_Cons map_Suc_upt del: upt_Suc)
  then have "map (\<lambda>k. [Get url (Suc (a + k)), Sleep (b * 2 ^ k)]) [0..<Suc n]
      = [Get url (Suc a), Sleep b] # map (\<lambda>k. [Get url (Suc (Suc a + k)), Sleep (b * 2 * 2 ^ k)]) [0..<n]"
    by (simp add: comp_def mult.assoc del: upt_Suc)
  with assms show ?thesis
    by (simp del: upt_Suc)
qed

lemma attempt_loop_schedule:
  "\<exists>n. fst (attempt_loop net retries slow_after url a b)
          = concat (map (\<lambda>k. [Get url (Suc (a + k)), Sleep (b * 2 ^ k)]) [0..<n]) @ [Get url (Suc (a + n))]
       \<and> (n = 0 \<or> int (a + n) \<le> retries)"
proof (induction net retries slow_after url a b rule: attempt_loop.induct)
  case (1 net retries slow_after url attempt backoff)
  let ?retry = "(\<exists>ms el. net url (Suc attempt) = Movies ms el \<and> el \<ge> slow_after \<and> int (Suc attempt) \<le> retries) \<or>
   (\<exists>e. net url (Suc attempt) = Raised e \<and> \<not> is_dns_error e \<and> int (Suc attempt) \<le> retries)"
  show ?case
  proof (cases ?retry)
    case True
    then have go: "int (Suc attempt) \<le> retries" by auto
    from True "1.IH" obtain n where
      n: "fst (attempt_loop net retries slow_after url (Suc attempt) (backoff * 2))
          = concat (map (\<lambda>k. [Get url (Suc (Suc attempt + k)), Sleep (backoff * 2 * 2 ^ k)]) [0..<n])
            @ [Get url (Suc (Suc attempt + n))]"
      and b: "n = 0 \<or> int (Suc attempt + n) \<le> retries"
      by blast
    have unfold: "fst (attempt_loop net retries slow_after url attempt backoff)
       = Get url (Suc attempt) # Sleep backoff
           # fst (attempt_loop net retries slow_after url (Suc attempt) (backoff * 2))"
      using True by (rule attempt_loop_retry)
    have "fst (attempt_loop net retries slow_after url attempt backoff)
       = concat (map (\<lambda>k. [Get url (Suc (attempt + k)), Sleep (backoff * 2 ^ k)]) [0..<Suc n])
         @ [Get url (Suc (attempt + Suc n))]"
      by (simp only: unfold schedule_step [OF n])
    moreover from b go have "int (attempt + Suc n) \<le> retries"
      by auto
    ultimately show ?thesis by blast
  next
    case False
    then have "net url (Suc attempt) = NotJson \<or>
      (\<exists>ms el. net url (Suc attempt) = Movies ms el \<and> \<not> (el \<ge> slow_after \<and> int (Suc attempt) \<le> retries)) \<or>
      (\<exists>e. net url (Suc attempt) = Raised e \<and> (is_dns_error e \<or> \<not> int (Suc attempt) \<le> retries))"
      by (cases "net url (Suc attempt)") auto
    then have "fst (attempt_loop net retries slow_after url attempt backoff) = [Get url (Suc attempt)]"
      by (rule attempt_loop_stop)
    then show ?thesis
      by (intro exI [of _ 0]) simp
  qed
qed

lemma attempt_loop_backoff_schedule:
  "\<exists>n. fst (attempt_loop net retries slow_after url 0 (3 / 4)) = backoff_schedule url n
       \<and> int n \<le> max retries 0"
proof -
  from attempt_loop_schedule [of net retries slow_after url 0 "3 / 4"] obtain n where
    "fst (attempt_loop net retries slow_after url 0 (3 / 4))
       = concat (map (\<lambda>k. [Get url (Suc k), Sleep (3 / 4 * 2 ^ k)]) [0..<n]) @ [Get url (Suc n)]"
    and "n = 0 \<or> int n \<le> retries"
    by auto
  then show ?thesis
    by (auto simp: backoff_schedule_def intro!: exI [of _ n])
qed

lemma search_mirrors_schedule:
  "\<forall>(base, evs) \<in> set (fst (search_mirrors net retries slow_after bases)).
     \<exists>n. evs = backoff_schedule (base @ ''/list_movies.json'') n \<and> int n \<le> max retries 0"
proof (induction bases)
  case Nil
  then show ?case by simp
next
  case (Cons base bases)
  obtain evs r where a: "attempt_loop net retries slow_after (base @ ''/list_movies.json'') 0 (3 / 4) = (evs, r)"
    by (cases "attempt_loop net retries slow_after (base @ ''/list_movies.json'') 0 (3 / 4)")
  with attempt_loop_backoff_schedule [of net retries slow_after "base @ ''/list_movies.json''"]
  have evs: "\<exists>n. evs = backoff_schedule (base @ ''/list_movies.json'') n \<and> int n \<le> max retries 0"
    by simp
  show ?case
  proof (cases r)
    case None
    with a evs Cons show ?thesis
      by (auto split: prod.splits)
  next
    case (Some movies)
    with a evs show ?thesis
      by simp
  qed
qed

lemma attempt_loop_dns:
  "net url 1 = Raised e \<Longrightarrow> is_dns_error e \<Longrightarrow>
   attempt_loop net retries slow_after url 0 b = ([Get url 1], None)"
  by (subst attempt_loop.simps) simp

lemma search_mirrors_dns:
  "\<forall>base \<in> set bases. \<exists>e. net (base @ ''/list_movies.json'') 1 = Raised e \<and> is_dns_error e \<Longrightarrow>
   search_mirrors net retries slow_after bases
     = (map (\<lambda>base. (base, [Get (base @ ''/list_movies.json'') 1])) bases, [])"
proof (induction bases)
  case Nil
  then show ?case by simp
next
  case (Cons base bases)
  then obtain e where "net (base @ ''/list_movies.json'') 1 = Raised e" and "is_dns_error e"
    by auto
  then have "attempt_loop net retries slow_after (base @ ''/list_movies.json'') 0 (3 / 4)
      = ([Get (base @ ''/list_movies.json'') 1], None)"
    by (rule attempt_loop_dns)
  with Cons show ?case by simp
qed

text \<open>
  C3. If the request to every mirror of the registry raises an exception that
  \<open>_is_dns_error\<close> recognises, \<open>yts_search\<close> returns the empty list, and its log
  holds one request per mirror, in the order of the registry.
\<close>

theorem yts_search_all_dns_failures:
  assumes "\<forall>base \<in> set (yts_bases getenv).
             \<exists>e. net (base @ ''/list_movies.json'') 1 = Raised e \<and> is_dns_error e"
  shows "yts_search net getenv retries slow_after
           = (map (\<lambda>base. (base, [Get (base @ ''/list_movies.json'') 1])) (yts_bases getenv), [])"
  unfolding yts_search_def using assms by (rule search_mirrors_dns)

theorem yts_search_all_dns_failures_witness:
  "is_dns_error dns_failure \<and>
   yts_search net_dns_down None 3 5
     = (map (\<lambda>base. (base, [Get (base @ ''/list_movies.json'') 1])) YTS_DEFAULT_BASES, [])"
  using yts_search_all_dns_failures [of None net_dns_down 3 5]
  by (simp add: net_dns_down_def dns_failure_def yts_bases_def YTS_DEFAULT_BASES_def strip_def)

text \<open>
  C4. On every mirror tried, the requests and sleeps follow the schedule:
  the sleep before retry \<open>k\<close> lasts \<open>0.75 * 2 ^ (k - 1)\<close> seconds, whatever
  caused the retry, and each mirror starts again from 0.75. The number of
  retries on a mirror is at most \<open>retries\<close>.
\<close>

theorem yts_search_backoff_schedule:
  "\<forall>(base, evs) \<in> set (fst (yts_search net getenv retries slow_after)).
     \<exists>n. evs = backoff_schedule (base @ ''/list_movies.json'') n \<and> int n \<le> max retries 0"
  unfolding yts_search_def by (rule search_mirrors_schedule)

theorem yts_search_backoff_schedule_witness:
  "yts_search net_recovering None 3 5
     = ([(''https://www.yts-official.to/api/v2'',
          backoff_schedule ''https://www.yts-official.to/api/v2/list_movies.json'' 2)],
        [scenario_movie]) \<and>
   backoff_schedule ''https://www.yts-official.to/api/v2/list_movies.json'' 2
     = [Get ''https://www.yts-official.to/api/v2/list_movies.json'' 1, Sleep (3 / 4),
        Get ''https://www.yts-official.to/api/v2/list_movies.json'' 2, Sleep (3 / 2),
        Get ''https://www.yts-official.to/api/v2/list_movies.json'' 3]"
  using yts_search_backoff_schedule [of net_recovering None 3 5]
  by (simp add: net_recovering_def timeout_failure_def yts_search_def yts_bases_def
      YTS_DEFAULT_BASES_def strip_def attempt_loop.simps backoff_schedule_def upt_rec)

section \<open>Properties of the candidate selector\<close>

lemma first_imdb_match_Some:
  "\<exists>m \<in> set movies. lower (imdb_code m) = lower imdb_id \<Longrightarrow>
   \<exists>i < length movies. first_imdb_match movies imdb_id = Some (movies ! i) \<and>
      lower (imdb_code (movies ! i)) = lower imdb_id \<and>
      (\<forall>j < i. lower (imdb_code (movies ! j)) \<noteq> lower imdb_id)"
proof (induction movies)
  case Nil
  then show ?case by simp
next
  case (Cons m ms)
  show ?case
  proof (cases "lower (imdb_code m) = lower imdb_id")
    case True
    then show ?thesis
      by (intro exI [of _ 0]) simp
  next
    case False
    with Cons obtain i where i: "i < length ms" "first_imdb_match ms imdb_id = Some (ms ! i)"
      "lower (imdb_code (ms ! i)) = lower imdb_id"
      "\<forall>j < i. lower (imdb_code (ms ! j)) \<noteq> lower imdb_id"
      by auto
    have "\<forall>j < Suc i. lower (imdb_code ((m # ms) ! j)) \<noteq> lower imdb_id"
    proof (intro allI impI)
      fix j
      assume "j < Suc i"
      with False i(4) show "lower (imdb_code ((m # ms) ! j)) \<noteq> lower imdb_id"
        by (cases j) auto
    qed
    with False i show ?thesis
      by (intro exI [of _ "Suc i"]) simp
  qed
qed

lemma first_imdb_match_None:
  "\<not> (\<exists>m \<in> set movies. lower (imdb_code m) = lower imdb_id) \<Longrightarrow>
   first_imdb_match movies imdb_id = None"
  by (induction movies) auto

text \<open>
  C2. With a non-empty identifier, the selection of both drivers returns the
  first candidate of the list whose \<open>imdb_code\<close> equals the identifier up to
  case, whenever there is one, for every rating and every similarity of
  titles; when there is none, the result is the one of \<open>_best_match\<close>.
\<close>

theorem exact_imdb_match_selected:
  assumes "imdb_id \<noteq> []"
  shows "((\<exists>m \<in> set movies. lower (imdb_code m) = lower imdb_id) \<longrightarrow>
          (\<exists>i < length movies.
             lower (imdb_code (movies ! i)) = lower imdb_id \<and>
             (\<forall>j < i. lower (imdb_code (movies ! j)) \<noteq> lower imdb_id) \<and>
             task_select similarity movies (Some imdb_id) title year = Some (movies ! i) \<and>
             jf_select similarity movies imdb_id title year_text = Inr (Some (movies ! i)))) \<and>
         (\<not> (\<exists>m \<in> set movies. lower (imdb_code m) = lower imdb_id) \<longrightarrow>
          task_select similarity movies (Some imdb_id) title year
            = best_match similarity movies title year)"
proof (intro conjI impI)
  assume "\<exists>m \<in> set movies. lower (imdb_code m) = lower imdb_id"
  from first_imdb_match_Some [OF this] obtain i where "i < length movies"
    "first_imdb_match movies imdb_id = Some (movies ! i)"
    "lower (imdb_code (movies ! i)) = lower imdb_id"
    "\<forall>j < i. lower (imdb_code (movies ! j)) \<noteq> lower imdb_id"
    by blast
  with assms show "\<exists>i < length movies.
             lower (imdb_code (movies ! i)) = lower imdb_id \<and>
             (\<forall>j < i. lower (imdb_code (movies ! j)) \<noteq> lower imdb_id) \<and>
             task_select similarity movies (Some imdb_id) title year = Some (movies ! i) \<and>
             jf_select similarity movies imdb_id title year_text = Inr (Some (movies ! i))"
    by (intro exI [of _ i]) (simp add: task_select_def jf_select_def)
next
  assume "\<not> (\<exists>m \<in> set movies. lower (imdb_code m) = lower imdb_id)"
  from first_imdb_match_None [OF this] assms
  show "task_select similarity movies (Some imdb_id) title year
            = best_match similarity movies title year"
    by (simp add: task_select_def)
qed

theorem exact_imdb_match_selected_witness:
  "task_select same_title [scenario_movie, low_rated] (Some ''tt0000042'') ''Title'' (Some 2020)
     = Some low_rated \<and>
   jf_select same_title [scenario_movie, low_rated] ''tt0000042'' ''Title'' (Some ''2020'')
     = Inr (Some low_rated) \<and>
   best_match same_title [scenario_movie, low_rated] ''Title'' (Some 2020) = Some scenario_movie"
  using exact_imdb_match_selected [where imdb_id = "''tt0000042''"
      and movies = "[scenario_movie, low_rated]" and similarity = same_title
      and title = "''Title''" and year = "Some 2020" and year_text = "Some ''2020''"]
  by (simp add: task_select_def jf_select_def best_match_def score_def year_given_def
      same_title_def low_rated_def
      scenario_movie_def candidate_def lower_def lower_char_def latin1_lower_def char_of_def bit_0
      nth_Cons' less_Suc_eq)

section \<open>Properties of the batch drivers\<close>

lemmas batch_simps =
  process_one_def row_get_def label_def magnet_of_def magnet_from_torrent_def get_text_def
  detect_current_quality_def show_int_def show_nat.simps sorted_list_of_set_sort_remdups
  quote_def quote_char_def percent_def hex_digit_def empty_enrichment_def
  choose_next_quality_def

lemma py_lower_error: "py_lower v = Inl e \<Longrightarrow> e = AttributeError"
  by (cases v) auto

lemma all_qualities_error: "all_qualities ts = Inl e \<Longrightarrow> e = AttributeError"
  by (induction ts) (auto split: sum.splits dest: py_lower_error)

lemma all_qualities_labels: "all_qualities ts = Inr all_q \<Longrightarrow> all_q = map label ts"
  by (induction ts arbitrary: all_q) (auto split: sum.splits)

lemma group_torrents_error: "group_torrents ts bq = Inl e \<Longrightarrow> e = AttributeError"
  by (induction ts bq rule: group_torrents.induct) (auto split: sum.splits if_splits dest: py_lower_error)

lemma sort_keys_error: "sort_keys arr = Inl e \<Longrightarrow> e = AttributeError"
  by (induction arr) (auto simp: bluray_key_def split: sum.splits dest: py_lower_error)

lemma sort_groups_error: "sort_groups bq = Inl e \<Longrightarrow> e = AttributeError"
  by (induction bq rule: sort_groups.induct)
    (auto simp: sort_bluray_first_def split: sum.splits dest: sort_keys_error)

lemma choose_next_quality_error:
  assumes "choose_next_quality m r = Inl e"
  shows "e = AttributeError"
proof (cases "group_torrents (torrents m) []")
  case (Inl e')
  with assms show ?thesis
    by (auto simp: choose_next_quality_def dest: group_torrents_error)
next
  case grouped: (Inr grouped)
  show ?thesis
  proof (cases "sort_groups grouped")
    case (Inl e')
    with assms grouped show ?thesis
      by (auto simp: choose_next_quality_def dest: sort_groups_error)
  next
    case (Inr bq)
    let ?prefs = "if rating m \<ge> RATING_UHD_THRESHOLD then PREF_QUALITIES_HIGH else PREF_QUALITIES_DEFAULT"
    have "groups_ok (torrents m) []"
      by (simp add: groups_ok_def)
    with grouped have "groups_ok (torrents m) grouped"
      by (rule groups_ok_group) simp
    with Inr have ok: "groups_ok (torrents m) bq"
      by (rule groups_ok_sort)
    from pick_preferred_ok [OF ok, of ?prefs r] obtain p where "pick_preferred ?prefs bq r = Inr p"
      by blast
    moreover from fallback_candidates_ok [OF ok, of r] obtain cs where "fallback_candidates bq r = Inr cs"
      by blast
    ultimately have "\<exists>res. choose_next_quality m r = Inr res"
      using grouped Inr
      by (auto simp: choose_next_quality_def split: option.splits list.splits)
    with assms show ?thesis by simp
  qed
qed

lemma process_one_error:
  assumes "process_one r t = Inl e"
  shows "(t = Inl KeyboardInterrupt \<and> e = KeyboardInterrupt) \<or>
         ((\<exists>m. t = Inr (Some m)) \<and> e = AttributeError)"
proof (cases t)
  case (Inl e')
  with assms show ?thesis
    by (auto simp: process_one_def Let_def split: if_splits)
next
  case (Inr found)
  show ?thesis
  proof (cases found)
    case None
    with assms Inr show ?thesis
      by (simp add: process_one_def Let_def)
  next
    case (Some m)
    with assms Inr show ?thesis
      by (auto simp: process_one_def Let_def split: sum.splits
          dest: all_qualities_error choose_next_quality_error)
  qed
qed

lemma process_one_task_error:
  "e \<noteq> KeyboardInterrupt \<Longrightarrow>
   process_one r (Inl e) = Inr [first_nonempty r [''path'', ''folder_path''], [], [], [], [], [], []]"
  by (simp add: process_one_def Let_def)

lemma process_one_length: "process_one r t = Inr out \<Longrightarrow> length out = 7"
  by (auto simp: process_one_def Let_def split: sum.splits option.splits if_splits)

lemma lookup_row_written:
  assumes "t \<noteq> Inl KeyboardInterrupt"
  shows "\<exists>written. lookup_row refresh r t = Inr written \<and>
           (refresh \<or> \<not> has_enrichment r \<longrightarrow>
              ((\<exists>e. t = Inl e) \<longrightarrow> written = empty_enrichment) \<and>
              ((\<exists>e. process_one r t = Inl e) \<longrightarrow> written = carried r))"
proof (cases "\<not> refresh \<and> has_enrichment r")
  case True
  then show ?thesis
    by (simp add: lookup_row_def)
next
  case processed: False
  show ?thesis
  proof (cases "process_one r t")
    case (Inl e)
    from process_one_error [OF Inl] assms have "e = AttributeError" "\<exists>m. t = Inr (Some m)"
      by auto
    with Inl processed show ?thesis
      by (auto simp: lookup_row_def)
  next
    case (Inr out)
    from process_one_length [OF Inr] obtain src a b c d f g where out: "out = [src, a, b, c, d, f, g]"
      by (auto simp: length_Suc_conv eval_nat_numeral)
    have "\<And>e. t = Inl e \<Longrightarrow> a = [] \<and> b = [] \<and> c = [] \<and> d = [] \<and> f = [] \<and> g = []"
      using Inr out assms by (auto simp: process_one_def Let_def split: if_splits)
    with Inr out processed show ?thesis
      by (auto simp: lookup_row_def empty_enrichment_def)
  qed
qed

text \<open>
  C9, as the code has it. When no call \<open>task(row)\<close> is interrupted, every
  row is written and the loop runs to its end. A row that is processed is
  written with the empty enrichment when \<open>task(row)\<close> raised, and with the
  enrichment columns it already had when \<open>process_one\<close> raised after that
  call.
\<close>

theorem row_exception_keeps_batch_running:
  assumes "\<forall>(r, t) \<in> set rows. t \<noteq> Inl KeyboardInterrupt"
  shows "\<exists>out. lookup_rows refresh rows = (out, None) \<and> length out = length rows \<and>
     (\<forall>i < length rows. case rows ! i of (r, t) \<Rightarrow>
         lookup_row refresh r t = Inr (out ! i) \<and>
         (refresh \<or> \<not> has_enrichment r \<longrightarrow>
            ((\<exists>e. t = Inl e) \<longrightarrow> out ! i = empty_enrichment) \<and>
            ((\<exists>e. process_one r t = Inl e) \<longrightarrow> out ! i = carried r)))"
  using assms
proof (induction rows)
  case Nil
  then show ?case by simp
next
  case (Cons row rows)
  obtain r t where row: "row = (r, t)" by (cases row)
  with Cons.prems have "t \<noteq> Inl KeyboardInterrupt" by simp
  from lookup_row_written [OF this, of refresh r] obtain written where
    w: "lookup_row refresh r t = Inr written"
    and w_ok: "refresh \<or> \<not> has_enrichment r \<longrightarrow>
              ((\<exists>e. t = Inl e) \<longrightarrow> written = empty_enrichment) \<and>
              ((\<exists>e. process_one r t = Inl e) \<longrightarrow> written = carried r)"
    by blast
  from Cons obtain out where out: "lookup_rows refresh rows = (out, None)" "length out = length rows"
    and out_ok: "\<forall>i < length rows. case rows ! i of (r, t) \<Rightarrow>
         lookup_row refresh r t = Inr (out ! i) \<and>
         (refresh \<or> \<not> has_enrichment r \<longrightarrow>
            ((\<exists>e. t = Inl e) \<longrightarrow> out ! i = empty_enrichment) \<and>
            ((\<exists>e. process_one r t = Inl e) \<longrightarrow> out ! i = carried r))"
    by auto
  have "\<forall>i < length (row # rows). case (row # rows) ! i of (r, t) \<Rightarrow>
         lookup_row refresh r t = Inr ((written # out) ! i) \<and>
         (refresh \<or> \<not> has_enrichment r \<longrightarrow>
            ((\<exists>e. t = Inl e) \<longrightarrow> (written # out) ! i = empty_enrichment) \<and>
            ((\<exists>e. process_one r t = Inl e) \<longrightarrow> (written # out) ! i = carried r))"
  proof (intro allI impI)
    fix i
    assume "i < length (row # rows)"
    then show "case (row # rows) ! i of (r, t) \<Rightarrow>
         lookup_row refresh r t = Inr ((written # out) ! i) \<and>
         (refresh \<or> \<not> has_enrichment r \<longrightarrow>
            ((\<exists>e. t = Inl e) \<longrightarrow> (written # out) ! i = empty_enrichment) \<and>
            ((\<exists>e. process_one r t = Inl e) \<longrightarrow> (written # out) ! i = carried r))"
      using row w w_ok out_ok by (cases i) auto
  qed
  with row w out show ?case
    by (intro exI [of _ "written # out"]) simp
qed

theorem row_exception_keeps_batch_running_witness:
  "process_one enriched_row (Inr (Some numeric_quality)) = Inl AttributeError \<and>
   lookup_rows True [(enriched_row, Inr (Some numeric_quality)), (fresh_row, Inl ValueError)]
     = ([carried enriched_row, empty_enrichment], None)"
  using row_exception_keeps_batch_running
    [of "[(enriched_row, Inr (Some numeric_quality)), (fresh_row, Inl ValueError)]" True]
  by (simp add: numeric_quality_def enriched_row_def fresh_row_def lookup_row_def carried_def
      has_enrichment_def batch_simps eval_simps)

theorem row_exception_previous_enrichment_counterexample:
  "process_one enriched_row (Inr (Some numeric_quality)) = Inl AttributeError \<and>
   lookup_rows True [(enriched_row, Inr (Some numeric_quality))]
     = ([\<lparr>yts_title = ''Title'', yts_year = ''2020'', yts_url = ''https://yts.mx/movies/title'',
          yts_quality_available = ''720p.web'', yts_next_quality = ''720p'',
          magnet = ''magnet:?xt=urn:btih:ABC&dn=Title.720p.web''\<rparr>], None) \<and>
   \<lparr>yts_title = ''Title'', yts_year = ''2020'', yts_url = ''https://yts.mx/movies/title'',
     yts_quality_available = ''720p.web'', yts_next_quality = ''720p'',
     magnet = ''magnet:?xt=urn:btih:ABC&dn=Title.720p.web''\<rparr> \<noteq> empty_enrichment"
  by (simp add: numeric_quality_def enriched_row_def lookup_row_def carried_def
      has_enrichment_def batch_simps eval_simps)

lemma process_one_available:
  assumes "process_one r (Inr (Some m)) = Inr out"
  shows "out ! 4 = join ''|'' (sorted_list_of_set (set (map label (torrents m))))"
  using assms
  by (auto simp: process_one_def Let_def split: sum.splits dest!: all_qualities_labels)

text \<open>
  C8 on a candidate with two 1080p web encodes. \<open>yts_lookup_from_csv\<close> writes
  the sorted set of labels joined by a bar; \<open>yts_lookup_from_jf_csv\<close> writes
  the labels in the order of the torrents, joined by a comma, the duplicate
  included.
\<close>

theorem jf_quality_available_keeps_duplicates:
  "map label (torrents two_encodes) = [''720p.web'', ''1080p.web'', ''1080p.web''] \<and>
   process_one fresh_row (Inr (Some two_encodes))
     = Inr [''/media/Other (1999)'', ''Title'', ''2020'', ''https://yts.mx/movies/title'',
            ''1080p.web|720p.web'', ''1080p'', ''magnet:?xt=urn:btih:&dn=Title.1080p.web''] \<and>
   jf_enriched (Some two_encodes) 0
     = Inr \<lparr>yts_title = ''Title'', yts_year = ''2020'', yts_url = ''https://yts.mx/movies/title'',
            yts_quality_available = ''720p.web,1080p.web,1080p.web'', yts_next_quality = ''1080p'',
            magnet = ''magnet:?xt=urn:btih:&dn=Title.1080p.web''\<rparr>"
  by (simp add: two_encodes_def fresh_row_def jf_enriched_def batch_simps eval_simps)

section \<open>Properties of the title normaliser\<close>

lemmas san_simps =
  sanitize_title_def latin1_alnum_def latin1_space_def ascii_digit_def latin1_lower_def
  year_at_def ustrip_def

lemma isolated_Cons:
  "isolated P (x # ys) \<longleftrightarrow> (ys = [] \<or> \<not> (P x \<and> P (hd ys))) \<and> isolated P ys"
  by (cases ys) auto

lemma isolated_append_right: "isolated P (xs @ ys) \<Longrightarrow> isolated P ys"
proof (induction xs)
  case Nil
  then show ?case by simp
next
  case (Cons x xs)
  then show ?case by (simp add: isolated_Cons)
qed

lemma isolated_append_left: "isolated P (xs @ ys) \<Longrightarrow> isolated P xs"
proof (induction xs)
  case Nil
  then show ?case by simp
next
  case (Cons x xs)
  then show ?case
    by (cases xs) (auto simp: isolated_Cons)
qed

lemma sub_runs_set: "set (sub_runs P s) \<subseteq> insert 32 {c \<in> set s. \<not> P c}"
proof (induction P s rule: sub_runs.induct)
  case (1 P)
  then show ?case by simp
next
  case (2 P c cs)
  have "set (dropWhile P cs) \<subseteq> set cs"
    by (auto dest: set_dropWhileD)
  with 2 show ?case by auto
qed

lemma sub_runs_id: "\<forall>c \<in> set s. \<not> P c \<Longrightarrow> sub_runs P s = s"
  by (induction s) auto

lemma sub_runs_hd: "s \<noteq> [] \<Longrightarrow> \<not> P (hd s) \<Longrightarrow> sub_runs P s \<noteq> [] \<and> hd (sub_runs P s) = hd s"
  by (cases s) auto

lemma sub_runs_isolated: "isolated P (sub_runs P s)"
proof (induction P s rule: sub_runs.induct)
  case (1 P)
  then show ?case by simp
next
  case (2 P c cs)
  show ?case
  proof (cases "P c")
    case True
    have "sub_runs P (dropWhile P cs) = [] \<or> \<not> P (hd (sub_runs P (dropWhile P cs)))"
    proof (cases "dropWhile P cs = []")
      case True
      have "sub_runs P [] = []" by simp
      with True show ?thesis by (simp only:) simp
    next
      case False
      then have "\<not> P (hd (dropWhile P cs))"
        by (rule hd_dropWhile)
      with False sub_runs_hd [of "dropWhile P cs" P] show ?thesis by simp
    qed
    with True 2 show ?thesis
      by (auto simp: isolated_Cons)
  next
    case False
    with 2 show ?thesis
      by (simp add: isolated_Cons)
  qed
qed

lemma sub_runs_clean_id:
  "\<forall>c \<in> set s. P c \<longrightarrow> c = 32 \<Longrightarrow> isolated P s \<Longrightarrow> sub_runs P s = s"
proof (induction s)
  case Nil
  then show ?case by simp
next
  case (Cons c cs)
  then have ih: "sub_runs P cs = cs"
    by (simp add: isolated_Cons)
  show ?case
  proof (cases "P c")
    case True
    with Cons.prems have "c = 32" and "cs = [] \<or> \<not> P (hd cs)"
      by (auto simp: isolated_Cons)
    then have "dropWhile P cs = cs"
      by (cases cs) auto
    with True ih \<open>c = 32\<close> show ?thesis by simp
  next
    case False
    with ih show ?thesis by simp
  qed
qed

lemma sub_runs_cong: "\<forall>c \<in> set s. P c = Q c \<Longrightarrow> sub_runs P s = sub_runs Q s"
proof (induction P s rule: sub_runs.induct)
  case (1 P)
  then show ?case by simp
next
  case (2 P c cs)
  from "2.prems" have dw: "dropWhile P cs = dropWhile Q cs"
    by (intro dropWhile_cong) auto
  have "set (dropWhile P cs) \<subseteq> set cs"
    by (auto dest: set_dropWhileD)
  with "2.prems" have agree: "\<forall>c \<in> set (dropWhile P cs). P c = Q c"
    by auto
  show ?case
  proof (cases "P c")
    case True
    with "2.prems" have "Q c" by simp
    with True "2.IH"(1) [OF True agree] dw show ?thesis by simp
  next
    case False
    with "2.prems" have "\<not> Q c" by simp
    with False "2.IH"(2) [OF False] "2.prems" show ?thesis by simp
  qed
qed

lemma year_at_cong: "\<forall>c \<in> set s. D c = D' c \<Longrightarrow> year_at D s = year_at D' s"
  by (auto simp: year_at_def)

lemma drop_years_set: "set (drop_years D s) \<subseteq> set s"
proof (induction D s rule: drop_years.induct)
  case (1 D)
  then show ?case by simp
next
  case (2 D c cs)
  have "set (drop 5 cs) \<subseteq> set cs"
    by (rule set_drop_subset)
  with 2 show ?case by auto
qed

lemma drop_years_id: "40 \<notin> set s \<Longrightarrow> drop_years D s = s"
  by (induction s) (auto simp: year_at_def)

lemma drop_years_cong: "\<forall>c \<in> set s. D c = D' c \<Longrightarrow> drop_years D s = drop_years D' s"
proof (induction D s rule: drop_years.induct)
  case (1 D)
  then show ?case by simp
next
  case (2 D c cs)
  have y: "year_at D (c # cs) = year_at D' (c # cs)"
    using "2.prems" by (rule year_at_cong)
  have "set (drop 5 cs) \<subseteq> set cs"
    by (rule set_drop_subset)
  with "2.prems" have agree: "\<forall>c \<in> set (drop 5 cs). D c = D' c"
    by auto
  show ?case
  proof (cases "year_at D (c # cs)")
    case True
    with "2.IH"(1) [OF True agree] y show ?thesis by simp
  next
    case False
    with "2.IH"(2) [OF False] "2.prems" y show ?thesis by simp
  qed
qed

lemma ustrip_set: "set (ustrip P s) \<subseteq> set s"
  by (auto simp: ustrip_def dest!: set_dropWhileD)

lemma ustrip_cong: "\<forall>c \<in> set s. P c = Q c \<Longrightarrow> ustrip P s = ustrip Q s"
proof -
  assume a: "\<forall>c \<in> set s. P c = Q c"
  then have 1: "dropWhile P s = dropWhile Q s"
    by (intro dropWhile_cong) auto
  have "set (rev (dropWhile Q s)) \<subseteq> set s"
    by (auto dest: set_dropWhileD)
  with a have "dropWhile P (rev (dropWhile Q s)) = dropWhile Q (rev (dropWhile Q s))"
    by (intro dropWhile_cong) auto
  with 1 show ?thesis
    by (simp add: ustrip_def)
qed

lemma ustrip_id: "s = [] \<or> (\<not> P (hd s) \<and> \<not> P (last s)) \<Longrightarrow> ustrip P s = s"
proof (cases s)
  case Nil
  then show ?thesis by (simp add: ustrip_def)
next
  case (Cons c cs)
  assume "s = [] \<or> (\<not> P (hd s) \<and> \<not> P (last s))"
  with Cons have h: "\<not> P (hd s)" and l: "\<not> P (last s)" by auto
  from Cons h have 1: "dropWhile P s = s" by simp
  from Cons obtain x xs where r: "rev s = x # xs"
    by (cases "rev s") auto
  have "hd (rev s) = last s"
    using Cons by (simp add: hd_rev)
  with r l have "\<not> P x" by simp
  then have "dropWhile P (x # xs) = x # xs" by simp
  then have "dropWhile P (rev s) = rev s"
    by (simp only: r)
  then have "rev (dropWhile P (rev (dropWhile P s))) = s"
    by (simp only: 1 rev_rev_ident)
  then show ?thesis
    by (simp only: ustrip_def)
qed

lemma ustrip_isolated: "isolated Q s \<Longrightarrow> isolated Q (ustrip P s)"
proof -
  assume iso: "isolated Q s"
  have "s = takeWhile P s @ dropWhile P s" by simp
  with iso have 1: "isolated Q (dropWhile P s)"
    by (metis isolated_append_right)
  let ?u = "dropWhile P s"
  have "rev ?u = takeWhile P (rev ?u) @ dropWhile P (rev ?u)" by simp
  then have "?u = rev (dropWhile P (rev ?u)) @ rev (takeWhile P (rev ?u))"
    by (metis rev_append rev_rev_ident)
  with 1 have "isolated Q (rev (dropWhile P (rev ?u)))"
    by (metis isolated_append_left)
  then show ?thesis by (simp add: ustrip_def)
qed

lemma ustrip_ends: "ustrip P s = [] \<or> (\<not> P (hd (ustrip P s)) \<and> \<not> P (last (ustrip P s)))"
proof (cases "ustrip P s = []")
  case True
  then show ?thesis by simp
next
  case False
  let ?u = "dropWhile P s"
  let ?v = "dropWhile P (rev ?u)"
  from False have v: "?v \<noteq> []" by (simp add: ustrip_def)
  then have "\<not> P (hd ?v)" by (rule hd_dropWhile)
  then have l: "\<not> P (last (ustrip P s))"
    using v by (simp add: ustrip_def last_rev)
  have u: "?u \<noteq> []"
  proof
    assume "?u = []"
    then have "?v = []" by (simp only: rev.simps dropWhile.simps)
    with v show False by simp
  qed
  then have hu: "\<not> P (hd ?u)" by (rule hd_dropWhile)
  have "rev ?u = takeWhile P (rev ?u) @ ?v" by simp
  then have "?u = rev ?v @ rev (takeWhile P (rev ?u))"
    by (metis rev_append rev_rev_ident)
  then have "hd ?u = hd (rev ?v)"
    using v by (metis hd_append2 rev_is_Nil_conv)
  with hu have "\<not> P (hd (ustrip P s))"
    by (simp add: ustrip_def)
  with l show ?thesis by simp
qed

lemma sanitize_title_before_lower: "sanitize_title U s = uc_lower U (before_lower U s)"
  by (simp add: sanitize_title_def before_lower_def Let_def)

lemma latin1_alnum_facts:
  "latin1_alnum c \<Longrightarrow> \<not> latin1_space c \<and> c \<noteq> 32 \<and> c \<noteq> 40 \<and> c \<noteq> 46 \<and> c \<noteq> 95 \<and> c < 256
     \<and> latin1_alnum (latin1_lower c)"
  by (auto simp: latin1_alnum_def latin1_space_def latin1_lower_def)

lemma latin1_space_32: "latin1_space 32" "latin1_lower 32 = 32" "\<not> latin1_alnum 32"
  by (simp_all add: latin1_space_def latin1_lower_def latin1_alnum_def)

lemma before_lower_clean: "clean (before_lower latin1_tables s)"
proof -
  let ?s1 = "sub_runs (\<lambda>c. c = 46 \<or> c = 95) s"
  let ?s2 = "drop_years ascii_digit ?s1"
  let ?s3 = "map (\<lambda>c. if (latin1_alnum c \<or> c = 95) \<or> latin1_space c then c else 32) ?s2"
  let ?s4 = "sub_runs latin1_space ?s3"
  have b: "before_lower latin1_tables s = ustrip latin1_space ?s4"
    by (simp add: before_lower_def latin1_tables_def)
  have "95 \<notin> set ?s1"
    using sub_runs_set [of "\<lambda>c. c = 46 \<or> c = 95" s] by auto
  moreover have "set ?s2 \<subseteq> set ?s1"
    by (rule drop_years_set)
  ultimately have "95 \<notin> set ?s2" by auto
  then have s3: "\<forall>c \<in> set ?s3. latin1_alnum c \<or> latin1_space c"
    by (auto simp: latin1_space_32)
  have "\<forall>c \<in> set ?s4. c = 32 \<or> latin1_alnum c"
    using sub_runs_set [of latin1_space ?s3] s3 by auto
  moreover have "set (ustrip latin1_space ?s4) \<subseteq> set ?s4"
    by (rule ustrip_set)
  ultimately have chars: "\<forall>c \<in> set (ustrip latin1_space ?s4). c = 32 \<or> latin1_alnum c"
    by blast
  have "isolated latin1_space ?s4"
    by (rule sub_runs_isolated)
  then have "isolated latin1_space (ustrip latin1_space ?s4)"
    by (rule ustrip_isolated)
  with chars ustrip_ends [of latin1_space ?s4] show ?thesis
    unfolding clean_def b by blast
qed

lemma isolated_map:
  "\<forall>c \<in> set s. P (f c) = P c \<Longrightarrow> isolated P (map f s) = isolated P s"
  by (induction P s rule: isolated.induct) auto

lemma clean_lower: "clean s \<Longrightarrow> clean (map latin1_lower s)"
proof -
  assume c: "clean s"
  then have chars: "\<forall>c \<in> set s. c = 32 \<or> latin1_alnum c"
    by (simp add: clean_def)
  then have sp: "\<forall>c \<in> set s. latin1_space (latin1_lower c) = latin1_space c"
    using latin1_alnum_facts latin1_space_32 by metis
  from chars have 1: "\<forall>c \<in> set (map latin1_lower s). c = 32 \<or> latin1_alnum c"
    using latin1_alnum_facts latin1_space_32 by auto
  from c sp have 2: "isolated latin1_space (map latin1_lower s)"
    by (simp add: isolated_map clean_def)
  have 3: "map latin1_lower s = [] \<or>
      (\<not> latin1_space (hd (map latin1_lower s)) \<and> \<not> latin1_space (last (map latin1_lower s)))"
  proof (cases "s = []")
    case True
    then show ?thesis by simp
  next
    case False
    with c have "\<not> latin1_space (hd s)" "\<not> latin1_space (last s)"
      by (simp_all add: clean_def)
    moreover from False have "hd s \<in> set s" "last s \<in> set s" by simp_all
    ultimately show ?thesis
      using False sp by (simp add: hd_map last_map)
  qed
  from 1 2 3 show ?thesis
    unfolding clean_def by blast
qed

lemma clean_before_lower_id: "clean s \<Longrightarrow> before_lower latin1_tables s = s"
proof -
  assume c: "clean s"
  then have chars: "\<forall>c \<in> set s. c = 32 \<or> latin1_alnum c"
    by (simp add: clean_def)
  have "\<forall>c \<in> set s. \<not> (c = 46 \<or> c = 95)"
    using chars latin1_alnum_facts by fastforce
  then have s1: "sub_runs (\<lambda>c. c = 46 \<or> c = 95) s = s"
    by (rule sub_runs_id)
  have "40 \<notin> set s"
    using chars latin1_alnum_facts by fastforce
  then have s2: "drop_years ascii_digit s = s"
    by (rule drop_years_id)
  have s3: "map (\<lambda>c. if (latin1_alnum c \<or> c = 95) \<or> latin1_space c then c else 32) s = s"
    using chars latin1_space_32 by (intro map_idI) auto
  have "\<forall>c \<in> set s. latin1_space c \<longrightarrow> c = 32"
    using chars latin1_alnum_facts by blast
  moreover from c have "isolated latin1_space s"
    by (simp add: clean_def)
  ultimately have s4: "sub_runs latin1_space s = s"
    by (rule sub_runs_clean_id)
  from c have "s = [] \<or> (\<not> latin1_space (hd s) \<and> \<not> latin1_space (last s))"
    by (simp add: clean_def)
  then have "ustrip latin1_space s = s"
    by (rule ustrip_id)
  with s1 s2 s3 s4 show ?thesis
    by (simp add: before_lower_def latin1_tables_def)
qed

lemma clean_latin1: "clean s \<Longrightarrow> \<forall>c \<in> set s. c < 256"
  using latin1_alnum_facts by (auto simp: clean_def)

lemma sanitize_title_latin1_idem:
  "sanitize_title latin1_tables (sanitize_title latin1_tables s) = sanitize_title latin1_tables s"
proof -
  let ?t = "map latin1_lower (before_lower latin1_tables s)"
  have t: "sanitize_title latin1_tables s = ?t"
    by (simp add: sanitize_title_before_lower latin1_tables_def)
  have "clean ?t"
    using before_lower_clean by (rule clean_lower)
  then have "before_lower latin1_tables ?t = ?t"
    by (rule clean_before_lower_id)
  then have "sanitize_title latin1_tables ?t = map latin1_lower ?t"
    by (simp add: sanitize_title_before_lower latin1_tables_def)
  also have "\<dots> = ?t"
    by (simp add: latin1_lower_idem)
  finally show ?thesis
    by (simp only: t)
qed

lemma sanitize_title_latin1_range: "\<forall>c \<in> set (sanitize_title latin1_tables s). c < 256"
proof -
  have "clean (map latin1_lower (before_lower latin1_tables s))"
    using before_lower_clean by (rule clean_lower)
  then show ?thesis
    by (simp only: sanitize_title_before_lower latin1_tables_def unicode_tables.simps)
      (rule clean_latin1)
qed

lemma before_lower_agree:
  assumes U: "agrees_on_latin1 U" and s: "\<forall>c \<in> set s. c < 256"
  shows "before_lower U s = before_lower latin1_tables s"
proof -
  let ?s1 = "sub_runs (\<lambda>c. c = 46 \<or> c = 95) s"
  from U have al: "\<And>n. n < 256 \<Longrightarrow> uc_alnum U n = latin1_alnum n"
    and sp: "\<And>n. n < 256 \<Longrightarrow> uc_space U n = latin1_space n"
    and de: "\<And>n. n < 256 \<Longrightarrow> uc_decimal U n = ascii_digit n"
    by (simp_all add: agrees_on_latin1_def)
  have r1: "\<forall>c \<in> set ?s1. c < 256"
    using sub_runs_set [of "\<lambda>c. c = 46 \<or> c = 95" s] s by auto
  then have e2: "drop_years (uc_decimal U) ?s1 = drop_years ascii_digit ?s1"
    using de by (intro drop_years_cong) simp
  let ?s2 = "drop_years ascii_digit ?s1"
  have r2: "\<forall>c \<in> set ?s2. c < 256"
    using drop_years_set [of ascii_digit ?s1] r1 by auto
  then have e3: "map (\<lambda>c. if (uc_alnum U c \<or> c = 95) \<or> uc_space U c then c else 32) ?s2
      = map (\<lambda>c. if (latin1_alnum c \<or> c = 95) \<or> latin1_space c then c else 32) ?s2"
    using al sp by (intro map_cong) auto
  let ?s3 = "map (\<lambda>c. if (latin1_alnum c \<or> c = 95) \<or> latin1_space c then c else 32) ?s2"
  have r3: "\<forall>c \<in> set ?s3. c < 256"
    using r2 by auto
  then have e4: "sub_runs (uc_space U) ?s3 = sub_runs latin1_space ?s3"
    using sp by (intro sub_runs_cong) simp
  let ?s4 = "sub_runs latin1_space ?s3"
  have r4: "\<forall>c \<in> set ?s4. c < 256"
    using sub_runs_set [of latin1_space ?s3] r3 by auto
  then have e5: "ustrip (uc_space U) ?s4 = ustrip latin1_space ?s4"
    using sp by (intro ustrip_cong) simp
  show ?thesis
    by (simp only: before_lower_def latin1_tables_def unicode_tables.select_convs e2 e3 e4 e5)
qed

lemma sanitize_title_agree:
  assumes U: "agrees_on_latin1 U" and s: "\<forall>c \<in> set s. c < 256"
  shows "sanitize_title U s = sanitize_title latin1_tables s"
proof -
  have "clean (before_lower latin1_tables s)"
    by (rule before_lower_clean)
  then have "\<forall>c \<in> set (before_lower latin1_tables s). c < 256"
    by (rule clean_latin1)
  with U have "uc_lower U (before_lower latin1_tables s) = map latin1_lower (before_lower latin1_tables s)"
    by (simp add: agrees_on_latin1_def)
  with before_lower_agree [OF U s] show ?thesis
    by (simp add: sanitize_title_before_lower latin1_tables_def)
qed

lemma ucd_excerpt_agrees: "agrees_on_latin1 ucd_excerpt"
proof -
  have "concat (map (\<lambda>n. if n = 304 then [105, 775] else [latin1_lower n]) s) = map latin1_lower s"
    if "\<forall>n \<in> set s. n < 256" for s :: "nat list"
    using that by (induction s) auto
  then show ?thesis
    by (simp add: agrees_on_latin1_def ucd_excerpt_def)
qed

text \<open>
  Where normalising twice is normalising once: on every title whose code
  points are all below 256, under any tables that agree with those of CPython
  there.
\<close>

lemma sanitize_title_idempotent_latin1:
  assumes "agrees_on_latin1 U" and "\<forall>c \<in> set s. c < 256"
  shows "sanitize_title U (sanitize_title U s) = sanitize_title U s"
proof -
  have "sanitize_title U s = sanitize_title latin1_tables s"
    using assms by (rule sanitize_title_agree)
  moreover have "sanitize_title U (sanitize_title latin1_tables s)
      = sanitize_title latin1_tables (sanitize_title latin1_tables s)"
    using assms(1) sanitize_title_latin1_range by (rule sanitize_title_agree)
  ultimately show ?thesis
    by (simp add: sanitize_title_latin1_idem)
qed

lemma sanitize_title_file_name:
  "agrees_on_latin1 ucd_excerpt \<and>
   sanitize_title ucd_excerpt title_file_name = map of_char ''the big film hd'' \<and>
   sanitize_title ucd_excerpt (sanitize_title ucd_excerpt title_file_name)
     = sanitize_title ucd_excerpt title_file_name"
  using sanitize_title_idempotent_latin1 [of ucd_excerpt title_file_name] ucd_excerpt_agrees
  by (simp add: title_file_name_def ucd_excerpt_def san_simps Let_def)

text \<open>
  C7 on the title Istanbul written with U+0130. \<open>lower()\<close> is the last step
  of \<open>_sanitize_title\<close>; it turns U+0130 into U+0069 U+0307, and the second
  call replaces U+0307, which is neither a word character nor a space, by a
  space: the normalised title is not normalised to itself.
\<close>

theorem sanitize_title_not_idempotent:
  "sanitize_title ucd_excerpt title_istanbul = [105, 775, 115, 116, 97, 110, 98, 117, 108] \<and>
   sanitize_title ucd_excerpt (sanitize_title ucd_excerpt title_istanbul)
     = [105, 32, 115, 116, 97, 110, 98, 117, 108] \<and>
   sanitize_title ucd_excerpt (sanitize_title ucd_excerpt title_istanbul)
     \<noteq> sanitize_title ucd_excerpt title_istanbul"
  by (simp add: title_istanbul_def ucd_excerpt_def san_simps Let_def)

end
